theory Spec2Isabelle
  imports Main "HOL-Library.Word" "HOL-Library.Sublist"
begin

unbundle bit_operations_syntax

section \<open>Data model of \<^verbatim>\<open>src/core.ts\<close>\<close>

text \<open>
  The string-literal unions \<^verbatim>\<open>Encoding\<close> and \<^verbatim>\<open>Algorithm\<close> are imported from
  \<^verbatim>\<open>./types\<close>; their members are the ones the specification lists.
\<close>

datatype Encoding = ascii | hex | base32 | base64

datatype Algorithm = sha1 | sha256 | sha512

text \<open>
  \<^verbatim>\<open>core.ts\<close> raises nothing itself and catches nothing: an exception thrown by one of
  the helpers it imports passes through every caller unchanged. The error kinds are the
  ones of the specification.
\<close>

datatype error =
  InvalidSecretEncoding | UnsupportedAlgorithm | InvalidCounter | InvalidStep
  | TruncationRangeError

type_synonym byte = "8 word"

type_synonym Buffer = "byte list"

text \<open>
  The option interfaces. JavaScript numbers are modelled by the integers they denote:
  the model does not cover fractional values, \<^verbatim>\<open>NaN\<close> and the infinities. Where the
  source adds or subtracts numbers in the loop of \<^verbatim>\<open>hotpVerify\<close>, the rounding of IEEE 754
  doubles is written out (\<open>toDouble\<close>, \<open>hotpVerify_loop_double\<close> below). An optional
  key \<^verbatim>\<open>k?: T\<close> is a field of type \<open>T option\<close>, \<open>None\<close> when the key is absent.
  The four keys that every interface repeats are declared once, in \<open>OTPOptions\<close>, and
  each interface extends it with its own keys.
\<close>

record OTPOptions =
  secret :: string
  digits :: "int option"
  encoding :: "Encoding option"
  algorithm :: "Algorithm option"

record HOTPGenerateOptions = OTPOptions +
  counter :: int

record HOTPVerifyOptions = HOTPGenerateOptions +
  code :: string
  window :: "int option"

record OTPVerificationResult =
  valid :: bool
  delta :: "int option"

record TOTPGenerateOptions = OTPOptions +
  time :: "int option"
  step :: "int option"

record TOTPVerifyOptions = TOTPGenerateOptions +
  code :: string
  window :: "int option"

section \<open>JavaScript primitives used by the module\<close>

text \<open>One key of an object spread \<^verbatim>\<open>{ ...defaults, ...options }\<close>: the caller's value
  when the key is present, the default otherwise.\<close>

definition orDefault :: "'a \<Rightarrow> 'a option \<Rightarrow> 'a" where
  "orDefault d v = (case v of None \<Rightarrow> d | Some x \<Rightarrow> x)"

text \<open>\<^verbatim>\<open>Number.prototype.toString()\<close> on a non-negative integer: its decimal digits,
  most significant first, no leading zero, \<^verbatim>\<open>"0"\<close> for zero.\<close>

fun toString :: "nat \<Rightarrow> string" where
  "toString n =
     (if n < 10 then [''0123456789'' ! n]
      else toString (n div 10) @ [''0123456789'' ! (n mod 10)])"

declare toString.simps [simp del]

text \<open>\<^verbatim>\<open>String.prototype.substr(start)\<close> with the length omitted: a negative \<^verbatim>\<open>start\<close>
  counts from the end of the string and is clamped at its beginning, a non-negative one
  is clamped at its end; the result runs to the end of the string.\<close>

definition substr :: "string \<Rightarrow> int \<Rightarrow> string" where
  "substr s start =
     (let len = int (length s);
          from = (if start < 0 then max (len + start) 0 else min start len)
      in drop (nat from) s)"

section \<open>The helpers imported from \<^verbatim>\<open>./internals\<close>\<close>

text \<open>
  \<^verbatim>\<open>hmacHash\<close> (secret decoding, counter encoding, and the HMAC primitive) is a
  parameter of every function below: a function from the resolved generation options to
  a digest or an error, written \<open>hmacHash\<close>.
\<close>

type_synonym hmacHash = "HOTPGenerateOptions \<Rightarrow> error + Buffer"

text \<open>The four bytes \<open>b0 b1 b2 b3\<close> read as a big-endian unsigned 32-bit integer.\<close>

definition readUInt32BE :: "Buffer \<Rightarrow> 32 word" where
  "readUInt32BE bs = foldl (\<lambda>acc b. push_bit 8 acc OR ucast b) 0 bs"

text \<open>
  Modelled from the spec: \<^verbatim>\<open>dynamicTruncate\<close> of \<^verbatim>\<open>./internals\<close> is not among the
  sources. Section 4.3: the offset is the low nibble of the digest's last byte; the four
  bytes from the offset on are read big-endian and the most significant bit is cleared;
  the operation fails with \<open>TruncationRangeError\<close> if \<open>offset + 4\<close> exceeds the digest
  length (which covers every digest shorter than four bytes, the empty one included).
\<close>

definition dynamicTruncate :: "Buffer \<Rightarrow> error + nat" where
  "dynamicTruncate digest =
     (let offset = unat (last digest AND 0x0F) in
      if length digest < offset + 4 then Inl TruncationRangeError
      else Inr (unat (readUInt32BE (take 4 (drop offset digest)) AND 0x7FFFFFFF)))"

text \<open>
  Modelled from the spec: \<^verbatim>\<open>generateCounterFromTime\<close> of \<^verbatim>\<open>./internals\<close> is not among
  the sources. Section 4.6: the time defaults to the current time when omitted (the clock
  reading is the argument \<open>now\<close>); the result is \<open>floor (time / step)\<close>; the operation
  fails with \<open>InvalidStep\<close> if \<open>step \<le> 0\<close>.
\<close>

definition generateCounterFromTime :: "int \<Rightarrow> int option \<Rightarrow> int \<Rightarrow> error + int" where
  "generateCounterFromTime now time' step' =
     (if step' \<le> 0 then Inl InvalidStep else Inr (orDefault now time' div step'))"

section \<open>HOTP\<close>

text \<open>\<^verbatim>\<open>{ ...hoptGenerateDefaults, ...options }\<close>\<close>

definition hoptGenerateDefaults :: "'a OTPOptions_scheme \<Rightarrow> 'a OTPOptions_scheme" where
  "hoptGenerateDefaults options =
     options\<lparr>encoding := Some (orDefault ascii (encoding options)),
             algorithm := Some (orDefault sha1 (algorithm options)),
             digits := Some (orDefault 6 (digits options))\<rparr>"

definition hotpGenerate :: "hmacHash \<Rightarrow> HOTPGenerateOptions \<Rightarrow> error + string" where
  "hotpGenerate hmacHash options =
     (let opts = hoptGenerateDefaults options in
      case hmacHash opts of
        Inl e \<Rightarrow> Inl e
      | Inr hash \<Rightarrow>
          (case dynamicTruncate hash of
             Inl e \<Rightarrow> Inl e
           | Inr code' \<Rightarrow> Inr (substr (toString code') (- orDefault 6 (digits opts)))))"

text \<open>\<^verbatim>\<open>{ ...hotpVerifyDefaults, ...options }\<close>\<close>

definition hotpVerifyDefaults :: "HOTPVerifyOptions \<Rightarrow> HOTPVerifyOptions" where
  "hotpVerifyDefaults options =
     (hoptGenerateDefaults options)
       \<lparr>HOTPVerifyOptions.window := Some (orDefault 0 (HOTPVerifyOptions.window options))\<rparr>"

text \<open>The object \<^verbatim>\<open>{ ...opts, counter: c }\<close> as \<^verbatim>\<open>hotpGenerate\<close> reads it.\<close>

definition withCounter :: "HOTPVerifyOptions \<Rightarrow> int \<Rightarrow> HOTPGenerateOptions" where
  "withCounter opts c =
     \<lparr>secret = secret opts, digits = digits opts, encoding = encoding opts,
      algorithm = algorithm opts, counter = c\<rparr>"

text \<open>
  The arithmetic of JavaScript numbers on integers. \<open>toDouble x\<close> is the double nearest to
  the integer \<open>x\<close> (round to nearest, ties to even, 53 significant bits): with \<open>e\<close> the
  number of bits of \<open>|x|\<close> beyond 53, \<open>|x|\<close> is rounded to a multiple of \<open>2 ^ e\<close>. The sum
  \<^verbatim>\<open>a + b\<close> of two integer-valued numbers is \<open>toDouble (a + b)\<close>, their difference
  \<open>toDouble (a - b)\<close>. (Overflow to infinity, from \<open>2 ^ 1024\<close> on, is not modelled.)
\<close>

fun bitLength :: "nat \<Rightarrow> nat" where
  "bitLength n = (if n = 0 then 0 else bitLength (n div 2) + 1)"

declare bitLength.simps [simp del]

text \<open>\<open>a\<close> rounded to a multiple of \<open>u\<close>: to the nearest one, and of two equally near
  ones to the even multiple.\<close>

definition roundHalfEven :: "nat \<Rightarrow> nat \<Rightarrow> nat" where
  "roundHalfEven u a =
     (if 2 * (a mod u) < u \<or> (2 * (a mod u) = u \<and> even (a div u))
      then a div u else a div u + 1) * u"

definition toDouble :: "int \<Rightarrow> int" where
  "toDouble x = sgn x * int (roundHalfEven (2 ^ (bitLength (nat \<bar>x\<bar>) - 53)) (nat \<bar>x\<bar>))"

text \<open>
  The \<^verbatim>\<open>for\<close> loop of \<^verbatim>\<open>hotpVerify\<close>, from the value \<open>c\<close> of the loop variable on, with the
  arithmetic of the source: \<^verbatim>\<open>opts.counter + opts.window\<close>, \<^verbatim>\<open>c += 1\<close> and
  \<^verbatim>\<open>c - opts.counter\<close> are sums and differences of doubles. Where \<^verbatim>\<open>c += 1\<close> rounds back to
  \<open>c\<close> the loop of the source does not end; not returning is the value \<open>None\<close>. Besides
  the result the function returns the log \<open>probed\<close> of the counters at which
  \<^verbatim>\<open>hotpGenerate\<close> has been called, in call order; the log is not part of the source and
  does not influence the result. The submitted code is a string, on which
  \<^verbatim>\<open>toString()\<close> is the identity.
\<close>

partial_function (option) hotpVerify_loop_double ::
  "hmacHash \<Rightarrow> HOTPVerifyOptions \<Rightarrow> int \<Rightarrow> int list
     \<Rightarrow> (int list \<times> (error + OTPVerificationResult)) option" where
  "hotpVerify_loop_double hmacHash opts c probed =
     (if c \<le> toDouble (counter opts + orDefault 0 (HOTPVerifyOptions.window opts)) then
        (case hotpGenerate hmacHash (withCounter opts c) of
           Inl e \<Rightarrow> Some (probed @ [c], Inl e)
         | Inr code' \<Rightarrow>
             if code' = HOTPVerifyOptions.code opts
             then Some (probed @ [c],
                    Inr \<lparr>valid = True, delta = Some (toDouble (c - counter opts))\<rparr>)
             else hotpVerify_loop_double hmacHash opts (toDouble (c + 1)) (probed @ [c]))
      else Some (probed, Inr \<lparr>valid = False, delta = None\<rparr>))"

definition hotpVerify_run_double ::
  "hmacHash \<Rightarrow> HOTPVerifyOptions
     \<Rightarrow> (int list \<times> (error + OTPVerificationResult)) option" where
  "hotpVerify_run_double hmacHash options =
     (let opts = hotpVerifyDefaults options in
      hotpVerify_loop_double hmacHash opts (counter opts) [])"

definition hotpVerify_double ::
  "hmacHash \<Rightarrow> HOTPVerifyOptions \<Rightarrow> (error + OTPVerificationResult) option" where
  "hotpVerify_double hmacHash options = map_option snd (hotpVerify_run_double hmacHash options)"

definition hotpVerify_probed_double :: "hmacHash \<Rightarrow> HOTPVerifyOptions \<Rightarrow> int list option" where
  "hotpVerify_probed_double hmacHash options =
     map_option fst (hotpVerify_run_double hmacHash options)"

text \<open>
  The same loop with exact integer arithmetic. It is the loop of the source whenever
  counter, window and their sum are safe integers (\<open>hotpVerify_run_double_exact\<close> below):
  then no sum or difference the loop computes is rounded, and the loop ends. The
  functions \<^verbatim>\<open>totpVerify\<close> and \<open>totpVerify_spec\<close> are stated over it.
\<close>

function hotpVerify_loop ::
  "hmacHash \<Rightarrow> HOTPVerifyOptions \<Rightarrow> int \<Rightarrow> int list
     \<Rightarrow> int list \<times> (error + OTPVerificationResult)" where
  "hotpVerify_loop hmacHash opts c probed =
     (if c \<le> counter opts + orDefault 0 (HOTPVerifyOptions.window opts) then
        (case hotpGenerate hmacHash (withCounter opts c) of
           Inl e \<Rightarrow> (probed @ [c], Inl e)
         | Inr code' \<Rightarrow>
             if code' = HOTPVerifyOptions.code opts
             then (probed @ [c], Inr \<lparr>valid = True, delta = Some (c - counter opts)\<rparr>)
             else hotpVerify_loop hmacHash opts (c + 1) (probed @ [c]))
      else (probed, Inr \<lparr>valid = False, delta = None\<rparr>))"
  by pat_completeness auto
termination
  by (relation "measure (\<lambda>(hmacHash, opts, c, probed).
        nat (counter opts + orDefault 0 (HOTPVerifyOptions.window opts) + 1 - c))") auto

declare hotpVerify_loop.simps [simp del]

definition hotpVerify_run ::
  "hmacHash \<Rightarrow> HOTPVerifyOptions \<Rightarrow> int list \<times> (error + OTPVerificationResult)" where
  "hotpVerify_run hmacHash options =
     (let opts = hotpVerifyDefaults options in
      hotpVerify_loop hmacHash opts (counter opts) [])"

definition hotpVerify :: "hmacHash \<Rightarrow> HOTPVerifyOptions \<Rightarrow> error + OTPVerificationResult" where
  "hotpVerify hmacHash options = snd (hotpVerify_run hmacHash options)"

definition hotpVerify_probed :: "hmacHash \<Rightarrow> HOTPVerifyOptions \<Rightarrow> int list" where
  "hotpVerify_probed hmacHash options = fst (hotpVerify_run hmacHash options)"

section \<open>TOTP\<close>

text \<open>\<^verbatim>\<open>{ ...totpGenerateDefaults, ...options }\<close>\<close>

definition totpGenerateDefaults ::
  "'a TOTPGenerateOptions_scheme \<Rightarrow> 'a TOTPGenerateOptions_scheme" where
  "totpGenerateDefaults options =
     options\<lparr>step := Some (orDefault 30 (step options)),
             digits := Some (orDefault 6 (digits options)),
             encoding := Some (orDefault ascii (encoding options)),
             algorithm := Some (orDefault sha1 (algorithm options))\<rparr>"

definition totpGenerate :: "hmacHash \<Rightarrow> int \<Rightarrow> TOTPGenerateOptions \<Rightarrow> error + string" where
  "totpGenerate hmacHash now options =
     (let opts = totpGenerateDefaults options in
      case generateCounterFromTime now (time opts) (orDefault 30 (step opts)) of
        Inl e \<Rightarrow> Inl e
      | Inr counter' \<Rightarrow>
          hotpGenerate hmacHash
            \<lparr>secret = secret opts, digits = digits opts, encoding = encoding opts,
             algorithm = algorithm opts, counter = counter'\<rparr>)"

text \<open>\<^verbatim>\<open>{ ...totpVerifyDefaults, ...options }\<close>\<close>

definition totpVerifyDefaults :: "TOTPVerifyOptions \<Rightarrow> TOTPVerifyOptions" where
  "totpVerifyDefaults options =
     (totpGenerateDefaults options)
       \<lparr>TOTPVerifyOptions.window := Some (orDefault 0 (TOTPVerifyOptions.window options))\<rparr>"

definition totpVerify ::
  "hmacHash \<Rightarrow> int \<Rightarrow> TOTPVerifyOptions \<Rightarrow> error + OTPVerificationResult" where
  "totpVerify hmacHash now options =
     (let opts = totpVerifyDefaults options in
      case generateCounterFromTime now (time opts) (orDefault 30 (step opts)) of
        Inl e \<Rightarrow> Inl e
      | Inr counter0 \<Rightarrow>
          (let counter' = counter0 - orDefault 0 (TOTPVerifyOptions.window opts);
               window' = orDefault 0 (TOTPVerifyOptions.window opts) * 2
           in case hotpVerify hmacHash
                     \<lparr>secret = secret opts, digits = digits opts, encoding = encoding opts,
                      algorithm = algorithm opts, counter = counter',
                      HOTPVerifyOptions.code = TOTPVerifyOptions.code opts,
                      HOTPVerifyOptions.window = Some window'\<rparr> of
                Inl e \<Rightarrow> Inl e
              | Inr result \<Rightarrow>
                  Inr (if valid result \<and> delta result \<noteq> None
                       then result\<lparr>delta :=
                              map_option (\<lambda>d. d - orDefault 0 (TOTPVerifyOptions.window opts))
                                (delta result)\<rparr>
                       else result)))"

section \<open>The codecs\<close>

text \<open>The \<open>n\<close> low bits of \<open>v\<close>, most significant first, and the number a bit string
  denotes.\<close>

fun bitsOf :: "nat \<Rightarrow> nat \<Rightarrow> bool list" where
  "bitsOf 0 v = []"
| "bitsOf (Suc n) v = bitsOf n (v div 2) @ [odd v]"

definition valueOf :: "bool list \<Rightarrow> nat" where
  "valueOf bs = foldl (\<lambda>acc b. 2 * acc + (if b then 1 else 0)) 0 bs"

text \<open>A list cut into consecutive pieces of \<open>k\<close> elements (the last one may be
  shorter).\<close>

function chunks :: "nat \<Rightarrow> 'a list \<Rightarrow> 'a list list" where
  "chunks k xs = (if k = 0 \<or> xs = [] then [] else take k xs # chunks k (drop k xs))"
  by pat_completeness auto
termination
  by (relation "measure (\<lambda>(k, xs). length xs)") auto

declare chunks.simps [simp del]

text \<open>Zero bits appended up to the next multiple of \<open>k\<close>.\<close>

definition padBits :: "nat \<Rightarrow> bool list \<Rightarrow> bool list" where
  "padBits k bs = bs @ replicate ((k - length bs mod k) mod k) False"

text \<open>
  Modelled from the spec: the codecs are external collaborators (Node's \<^verbatim>\<open>Buffer\<close> and
  the package \<^verbatim>\<open>hi-base32\<close>), "standard codecs" with the alphabets of RFC 4648.
  An encoder of base \<open>2 ^ k\<close> writes the bytes as one bit string, most significant bit
  first, pads it with zero bits to a multiple of \<open>k\<close>, and renders every group of \<open>k\<close>
  bits by the character of the alphabet at that index.
\<close>

definition byteBits :: "byte \<Rightarrow> bool list" where
  "byteBits b = bitsOf 8 (unat b)"

definition bitsByte :: "bool list \<Rightarrow> byte" where
  "bitsByte c = of_nat (valueOf c)"

definition digitChar :: "string \<Rightarrow> bool list \<Rightarrow> char" where
  "digitChar alphabet c = alphabet ! valueOf c"

definition baseEncode :: "nat \<Rightarrow> string \<Rightarrow> Buffer \<Rightarrow> string" where
  "baseEncode k alphabet bytes =
     map (digitChar alphabet) (chunks k (padBits k (concat (map byteBits bytes))))"

text \<open>\<^verbatim>\<open>=\<close> characters appended up to the next multiple of \<open>n\<close> characters.\<close>

definition padTo :: "nat \<Rightarrow> string \<Rightarrow> string" where
  "padTo n s = s @ replicate ((n - length s mod n) mod n) (CHR ''='')"

text \<open>The position of the first occurrence of \<open>x\<close> in a list.\<close>

primrec indexOf :: "'a list \<Rightarrow> 'a \<Rightarrow> nat" where
  "indexOf [] x = 0"
| "indexOf (y # ys) x = (if x = y then 0 else indexOf ys x + 1)"

text \<open>
  Modelled from the spec: the decoder of base \<open>2 ^ k\<close> accepts only characters of the
  alphabet, concatenates their \<open>k\<close>-bit indices, and reads the whole bytes of the bit string;
  the incomplete last byte, which holds padding bits, is dropped.
\<close>

definition charDigit :: "nat \<Rightarrow> string \<Rightarrow> char \<Rightarrow> bool list" where
  "charDigit k alphabet ch = bitsOf k (indexOf alphabet ch)"

definition baseDecode :: "nat \<Rightarrow> string \<Rightarrow> string \<Rightarrow> Buffer option" where
  "baseDecode k alphabet text =
     (if list_all (\<lambda>ch. ch \<in> set alphabet) text then
        (let bits = concat (map (charDigit k alphabet) text)
         in Some (map bitsByte (chunks 8 (take (8 * (length bits div 8)) bits))))
      else None)"

text \<open>
  A padded text is accepted when its length is a multiple of \<open>n\<close> and \<^verbatim>\<open>=\<close> occurs only
  as a trailing run; the characters before the padding are its body.
\<close>

definition unpad :: "nat \<Rightarrow> string \<Rightarrow> string option" where
  "unpad n text =
     (if length text mod n = 0
         \<and> list_all (\<lambda>ch. ch = CHR ''='') (dropWhile (\<lambda>ch. ch \<noteq> CHR ''='') text)
      then Some (takeWhile (\<lambda>ch. ch \<noteq> CHR ''='') text) else None)"

text \<open>Modelled from the spec: the alphabets of the external codecs, lowercase
  hexadecimal (what Node's \<^verbatim>\<open>toString('hex')\<close> writes) and the Base32 and Base64 alphabets
  of RFC 4648.\<close>

definition hex_alphabet :: string where
  "hex_alphabet = ''0123456789abcdef''"

definition base32_alphabet :: string where
  "base32_alphabet = ''ABCDEFGHIJKLMNOPQRSTUVWXYZ234567''"

definition base64_alphabet :: string where
  "base64_alphabet = ''ABCDEFGHIJKLMNOPQRSTUVWXYZabcdefghijklmnopqrstuvwxyz0123456789+/''"

text \<open>Modelled from the spec: \<^verbatim>\<open>Buffer.from(s, 'ascii')\<close> of Node, one byte per
  character.\<close>

definition Buffer_from_ascii :: "string \<Rightarrow> Buffer" where
  "Buffer_from_ascii s = map of_char s"

text \<open>Modelled from the spec: \<^verbatim>\<open>buf.toString('hex')\<close> and \<^verbatim>\<open>buf.toString('base64')\<close>
  of Node (padding retained), and \<^verbatim>\<open>base32.encode(buf)\<close> of \<^verbatim>\<open>hi-base32\<close> (padded to a
  multiple of eight characters).\<close>

definition Buffer_toString_hex :: "Buffer \<Rightarrow> string" where
  "Buffer_toString_hex bytes = baseEncode 4 hex_alphabet bytes"

definition Buffer_toString_base64 :: "Buffer \<Rightarrow> string" where
  "Buffer_toString_base64 bytes = padTo 4 (baseEncode 6 base64_alphabet bytes)"

definition base32_encode :: "Buffer \<Rightarrow> string" where
  "base32_encode bytes = padTo 8 (baseEncode 5 base32_alphabet bytes)"

text \<open>Modelled from the spec: the decoders of the three encodings, which no source
  file contains; Base32 and Base64 require the padding.\<close>

definition hex_decode :: "string \<Rightarrow> Buffer option" where
  "hex_decode text = baseDecode 4 hex_alphabet text"

definition base32_decode :: "string \<Rightarrow> Buffer option" where
  "base32_decode text =
     (case unpad 8 text of None \<Rightarrow> None | Some body \<Rightarrow> baseDecode 5 base32_alphabet body)"

definition base64_decode :: "string \<Rightarrow> Buffer option" where
  "base64_decode text =
     (case unpad 4 text of None \<Rightarrow> None | Some body \<Rightarrow> baseDecode 6 base64_alphabet body)"

section \<open>Secret generation\<close>

record SecretOptions =
  length' :: "int option"

type_synonym SecretResult = "Encoding \<Rightarrow> string"

text \<open>
  \<^verbatim>\<open>randomstring\<close> of the package \<^verbatim>\<open>@sidoshi/random-string\<close> draws from a random source;
  it is a parameter, and a call \<^verbatim>\<open>generateSecret(options)\<close> is modelled for the string
  this call of \<^verbatim>\<open>randomstring\<close> returns.
\<close>

definition generateSecret :: "(int \<Rightarrow> string) \<Rightarrow> SecretOptions \<Rightarrow> SecretResult" where
  "generateSecret randomstring options =
     (let opts = options\<lparr>length' := Some (orDefault 12 (length' options))\<rparr>;
          secret' = randomstring (orDefault 12 (length' opts))
      in (\<lambda>k. case k of
            ascii \<Rightarrow> secret'
          | hex \<Rightarrow> Buffer_toString_hex (Buffer_from_ascii secret')
          | base32 \<Rightarrow>
              filter (\<lambda>ch. ch \<noteq> CHR ''='') (base32_encode (Buffer_from_ascii secret'))
          | base64 \<Rightarrow> Buffer_toString_base64 (Buffer_from_ascii secret')))"

section \<open>Notions used in the statements\<close>

text \<open>The last counter of the search range of \<^verbatim>\<open>hotpVerify\<close>: \<^verbatim>\<open>counter + window\<close>.\<close>

definition lastCounter :: "HOTPVerifyOptions \<Rightarrow> int" where
  "lastCounter opts = counter opts + orDefault 0 (HOTPVerifyOptions.window opts)"

text \<open>Counter, window and the last counter of the range are safe integers
  (\<^verbatim>\<open>Number.isSafeInteger\<close>: of absolute value below \<open>2 ^ 53\<close>).\<close>

definition safeIntegers :: "HOTPVerifyOptions \<Rightarrow> bool" where
  "safeIntegers opts =
     (\<bar>counter opts\<bar> < 2 ^ 53 \<and> \<bar>orDefault 0 (HOTPVerifyOptions.window opts)\<bar> < 2 ^ 53
      \<and> \<bar>lastCounter opts\<bar> < 2 ^ 53)"

text \<open>At counter \<open>c\<close> a code is generated and differs from the submitted one, so that the
  loop of \<^verbatim>\<open>hotpVerify\<close> goes on to \<open>c + 1\<close>.\<close>

definition mismatch :: "hmacHash \<Rightarrow> HOTPVerifyOptions \<Rightarrow> int \<Rightarrow> bool" where
  "mismatch hmacHash opts c =
     (case hotpGenerate hmacHash (withCounter opts c) of
        Inl e \<Rightarrow> False
      | Inr code' \<Rightarrow> code' \<noteq> HOTPVerifyOptions.code opts)"

text \<open>The verification options made of generation options, a submitted code and a
  window.\<close>

definition verifyOptions ::
  "HOTPGenerateOptions \<Rightarrow> string \<Rightarrow> int option \<Rightarrow> HOTPVerifyOptions" where
  "verifyOptions g code' window' =
     \<lparr>secret = secret g, digits = digits g, encoding = encoding g, algorithm = algorithm g,
      counter = counter g, HOTPVerifyOptions.code = code',
      HOTPVerifyOptions.window = window'\<rparr>"

definition totpVerifyOptions ::
  "TOTPGenerateOptions \<Rightarrow> string \<Rightarrow> int option \<Rightarrow> TOTPVerifyOptions" where
  "totpVerifyOptions g code' window' =
     \<lparr>secret = secret g, digits = digits g, encoding = encoding g, algorithm = algorithm g,
      time = time g, step = step g, TOTPVerifyOptions.code = code',
      TOTPVerifyOptions.window = window'\<rparr>"

text \<open>
  The verification algorithm of TOTP in the words of the specification (section 4.7):
  derive \<open>counter0\<close>; call HOTP verify with counter \<open>counter0 - window\<close> and window
  \<open>window * 2\<close> (the request \<open>hotpRequest\<close>); if the result is valid, return it with
  \<open>window\<close> subtracted from the delta; if invalid, return invalid with no delta.
\<close>

definition hotpRequest :: "TOTPVerifyOptions \<Rightarrow> int \<Rightarrow> HOTPVerifyOptions" where
  "hotpRequest options counter0 =
     \<lparr>secret = secret options, digits = digits options, encoding = encoding options,
      algorithm = algorithm options,
      counter = counter0 - orDefault 0 (TOTPVerifyOptions.window options),
      HOTPVerifyOptions.code = TOTPVerifyOptions.code options,
      HOTPVerifyOptions.window = Some (orDefault 0 (TOTPVerifyOptions.window options) * 2)\<rparr>"


text \<open>The truncated value from which \<^verbatim>\<open>hotpGenerate\<close> cuts the code: the first two
  steps of its body.\<close>

definition truncatedValue :: "hmacHash \<Rightarrow> HOTPGenerateOptions \<Rightarrow> error + nat" where
  "truncatedValue hmacHash options =
     (case hmacHash (hoptGenerateDefaults options) of
        Inl e \<Rightarrow> Inl e
      | Inr hash \<Rightarrow> dynamicTruncate hash)"

text \<open>The number a string of decimal digits denotes.\<close>

definition decimalValue :: "string \<Rightarrow> nat" where
  "decimalValue s = foldl (\<lambda>acc ch. 10 * acc + (of_char ch - 48)) 0 s"

text \<open>
  The decimal formatter in the words of the specification (section 4.4): the value
  modulo \<open>10 ^ digits\<close>, in decimal, left-padded with \<^verbatim>\<open>'0'\<close> to \<open>digits\<close> characters.
\<close>

definition formatCode_spec :: "nat \<Rightarrow> nat \<Rightarrow> string" where
  "formatCode_spec v d =
     (let s = toString (v mod 10 ^ d) in replicate (d - length s) (CHR ''0'') @ s)"

text \<open>The last \<open>d\<close> decimal digits of \<open>v\<close>, leading zeros included.\<close>

fun fixedWidth :: "nat \<Rightarrow> nat \<Rightarrow> string" where
  "fixedWidth 0 v = []"
| "fixedWidth (Suc d) v = fixedWidth d (v div 10) @ [''0123456789'' ! (v mod 10)]"

section \<open>A concrete collaborator: HMAC-SHA-1 under the test key of RFC 4226\<close>

text \<open>
  An excerpt of the function \<open>counter \<mapsto> HMAC-SHA-1 (key, counter)\<close> for the 20-byte
  ASCII key \<^verbatim>\<open>12345678901234567890\<close> of RFC 4226, Appendix D (whose table of intermediate
  values lists the first three digests below), the counter encoded in 8 bytes, big-endian.
  The last five counters are \<open>2 ^ 53 - 1\<close>, \<open>2 ^ 53\<close>, \<open>2 ^ 53 + 2\<close>, \<open>2 ^ 53 + 4\<close> and
  \<open>2 ^ 53 + 8\<close>.
\<close>

definition rfc4226_digests :: "(int \<times> Buffer) list" where
  "rfc4226_digests =
    [(0, [0xcc, 0x93, 0xcf, 0x18, 0x50, 0x8d, 0x94, 0x93, 0x4c, 0x64,
          0xb6, 0x5d, 0x8b, 0xa7, 0x66, 0x7f, 0xb7, 0xcd, 0xe4, 0xb0]),
     (1, [0x75, 0xa4, 0x8a, 0x19, 0xd4, 0xcb, 0xe1, 0x00, 0x64, 0x4e,
          0x8a, 0xc1, 0x39, 0x7e, 0xea, 0x74, 0x7a, 0x2d, 0x33, 0xab]),
     (2, [0x0b, 0xac, 0xb7, 0xfa, 0x08, 0x2f, 0xef, 0x30, 0x78, 0x22,
          0x11, 0x93, 0x8b, 0xc1, 0xc5, 0xe7, 0x04, 0x16, 0xff, 0x44]),
     (10281, [0x08, 0x63, 0x8d, 0x80, 0x01, 0x69, 0x8b, 0x42, 0x58, 0xe1,
              0x15, 0xe9, 0x66, 0xb8, 0xb3, 0x79, 0xad, 0x3a, 0x40, 0x53]),
     (103424, [0x20, 0x8a, 0xc3, 0x55, 0x86, 0x54, 0xf4, 0x6d, 0xc1, 0x47,
               0xe5, 0x2f, 0x9b, 0x8c, 0x06, 0x99, 0xdc, 0x05, 0x40, 0x7e]),
     (103425, [0xb3, 0x01, 0x78, 0x3f, 0xf9, 0x78, 0x6a, 0x37, 0xc5, 0x5b,
               0xe6, 0x1b, 0x7c, 0x97, 0xb6, 0xc6, 0x39, 0xf5, 0x71, 0x31]),
     (103426, [0x73, 0xc1, 0x37, 0x9e, 0x16, 0xb4, 0x4f, 0xe3, 0x89, 0x85,
               0xe0, 0xf3, 0x94, 0x1e, 0x91, 0x34, 0xf7, 0x64, 0x23, 0xee]),
     (103427, [0x45, 0x27, 0xa4, 0xd3, 0x4b, 0xe5, 0x63, 0x16, 0xb6, 0x82,
               0xb1, 0xb1, 0x1c, 0x64, 0x25, 0xc6, 0x34, 0xc5, 0xf2, 0x1e]),
     (9007199254740991, [0x7d, 0x8d, 0x6d, 0xc9, 0x07, 0xeb, 0xca, 0x15, 0x28, 0x0e,
                         0xc3, 0x64, 0xc9, 0xca, 0x7c, 0x56, 0x7c, 0x7a, 0x3c, 0xf2]),
     (9007199254740992, [0x38, 0x2f, 0x72, 0x2a, 0x22, 0x96, 0xfd, 0xf7, 0xb3, 0xc5,
                         0x76, 0x00, 0xc3, 0xba, 0xd8, 0x70, 0x77, 0x35, 0x92, 0xff]),
     (9007199254740994, [0xbb, 0xf6, 0x52, 0x41, 0x4c, 0xa7, 0x92, 0xbc, 0x47, 0x9e,
                         0x09, 0xed, 0x0a, 0x2e, 0xea, 0x20, 0xa4, 0x57, 0xda, 0xa8]),
     (9007199254740996, [0x6f, 0x1e, 0x9e, 0x95, 0x0f, 0xad, 0xe2, 0xbe, 0x5b, 0xaf,
                         0x35, 0x98, 0x4f, 0xe8, 0xcd, 0x8f, 0x46, 0xb6, 0x36, 0x13]),
     (9007199254741000, [0x9d, 0x01, 0x0a, 0x10, 0xe6, 0xda, 0x54, 0x51, 0x83, 0xc0,
                         0xcf, 0x31, 0xd8, 0xce, 0x24, 0xe5, 0x2c, 0x30, 0xf0, 0x43])]"

text \<open>
  The excerpt as an \<open>hmacHash\<close>. For any other key, encoding, algorithm or counter it
  reports an error; no statement below looks at such a point.
\<close>

definition rfc4226_hmacHash :: hmacHash where
  "rfc4226_hmacHash opts =
     (if secret opts = ''12345678901234567890'' \<and> encoding opts = Some ascii
         \<and> algorithm opts = Some sha1
      then (case map_of rfc4226_digests (counter opts) of
              None \<Rightarrow> Inl InvalidCounter
            | Some digest \<Rightarrow> Inr digest)
      else Inl InvalidSecretEncoding)"

text \<open>Generation options for the RFC 4226 key with every optional key absent.\<close>

definition rfc4226_options :: "int \<Rightarrow> HOTPGenerateOptions" where
  "rfc4226_options c =
     \<lparr>secret = ''12345678901234567890'', digits = None, encoding = None, algorithm = None,
      counter = c\<rparr>"

text \<open>TOTP generation options for the same key: time \<open>t\<close>, step 30, everything else
  absent.\<close>

definition rfc6238_options :: "int \<Rightarrow> TOTPGenerateOptions" where
  "rfc6238_options t =
     \<lparr>secret = ''12345678901234567890'', digits = None, encoding = None, algorithm = None,
      time = Some t, step = Some 30\<rparr>"

section \<open>The search loop of \<^verbatim>\<open>hotpVerify\<close>\<close>

lemma hoptGenerateDefaults_idem [simp]:
  "hoptGenerateDefaults (hoptGenerateDefaults options) = hoptGenerateDefaults options"
  by (simp add: hoptGenerateDefaults_def orDefault_def)

lemma withCounter_defaults:
  "hoptGenerateDefaults (withCounter (hotpVerifyDefaults options) c)
     = hoptGenerateDefaults (withCounter options c)"
  by (simp add: hoptGenerateDefaults_def hotpVerifyDefaults_def withCounter_def orDefault_def)

lemma hotpGenerate_defaults [simp]:
  "hotpGenerate hmacHash (withCounter (hotpVerifyDefaults options) c)
     = hotpGenerate hmacHash (withCounter options c)"
  by (simp add: hotpGenerate_def withCounter_defaults)

lemma loop_exhausted:
  "lastCounter opts < c \<Longrightarrow>
   hotpVerify_loop hmacHash opts c probed = (probed, Inr \<lparr>valid = False, delta = None\<rparr>)"
  by (simp add: hotpVerify_loop.simps lastCounter_def)

lemma loop_step_mismatch:
  assumes "c \<le> lastCounter opts" "mismatch hmacHash opts c"
  shows "hotpVerify_loop hmacHash opts c probed
           = hotpVerify_loop hmacHash opts (c + 1) (probed @ [c])"
proof -
  from assms(2) obtain x where
    "hotpGenerate hmacHash (withCounter opts c) = Inr x" "x \<noteq> HOTPVerifyOptions.code opts"
    by (auto simp: mismatch_def split: sum.splits)
  with assms(1) show ?thesis
    by (subst hotpVerify_loop.simps) (simp add: lastCounter_def)
qed

lemma loop_step_match:
  assumes "c \<le> lastCounter opts"
    "hotpGenerate hmacHash (withCounter opts c) = Inr (HOTPVerifyOptions.code opts)"
  shows "hotpVerify_loop hmacHash opts c probed
           = (probed @ [c], Inr \<lparr>valid = True, delta = Some (c - counter opts)\<rparr>)"
  using assms by (subst hotpVerify_loop.simps) (simp add: lastCounter_def)

lemma loop_step_error:
  assumes "c \<le> lastCounter opts" "hotpGenerate hmacHash (withCounter opts c) = Inl e"
  shows "hotpVerify_loop hmacHash opts c probed = (probed @ [c], Inl e)"
  using assms by (subst hotpVerify_loop.simps) (simp add: lastCounter_def)

lemma loop_cases:
  "(\<forall>c'. c \<le> c' \<and> c' \<le> lastCounter opts \<longrightarrow> mismatch hmacHash opts c') \<and>
     hotpVerify_loop hmacHash opts c probed
       = (probed @ [c..lastCounter opts], Inr \<lparr>valid = False, delta = None\<rparr>)
   \<or> (\<exists>m. c \<le> m \<and> m \<le> lastCounter opts \<and>
         (\<forall>c'. c \<le> c' \<and> c' < m \<longrightarrow> mismatch hmacHash opts c') \<and>
         hotpGenerate hmacHash (withCounter opts m) = Inr (HOTPVerifyOptions.code opts) \<and>
         hotpVerify_loop hmacHash opts c probed
           = (probed @ [c..m], Inr \<lparr>valid = True, delta = Some (m - counter opts)\<rparr>))
   \<or> (\<exists>m e. c \<le> m \<and> m \<le> lastCounter opts \<and>
         (\<forall>c'. c \<le> c' \<and> c' < m \<longrightarrow> mismatch hmacHash opts c') \<and>
         hotpGenerate hmacHash (withCounter opts m) = Inl e \<and>
         hotpVerify_loop hmacHash opts c probed = (probed @ [c..m], Inl e))"
  (is "?A hmacHash opts c probed \<or> ?B hmacHash opts c probed \<or> ?C hmacHash opts c probed")
proof (induction hmacHash opts c probed rule: hotpVerify_loop.induct)
  case (1 hmacHash opts c probed)
  show ?case
  proof (cases "c \<le> lastCounter opts")
    case False
    then have lt: "lastCounter opts < c" by simp
    then have "\<forall>c'. c \<le> c' \<and> c' \<le> lastCounter opts \<longrightarrow> mismatch hmacHash opts c'"
      by auto
    moreover have "[c..lastCounter opts] = []" using lt by simp
    ultimately have "?A hmacHash opts c probed" using loop_exhausted[OF lt] by simp
    then show ?thesis by blast
  next
    case le: True
    show ?thesis
    proof (cases "hotpGenerate hmacHash (withCounter opts c)")
      case (Inl e)
      have "hotpVerify_loop hmacHash opts c probed = (probed @ [c..c], Inl e)"
        using loop_step_error[OF le Inl] by simp
      with le Inl show ?thesis by force
    next
      case (Inr x)
      show ?thesis
      proof (cases "x = HOTPVerifyOptions.code opts")
        case True
        have "hotpVerify_loop hmacHash opts c probed
                = (probed @ [c..c], Inr \<lparr>valid = True, delta = Some (c - counter opts)\<rparr>)"
          using loop_step_match[OF le] Inr True by simp
        with le Inr True show ?thesis by force
      next
        case False
        have mm: "mismatch hmacHash opts c"
          using Inr False by (simp add: mismatch_def)
        have step: "hotpVerify_loop hmacHash opts c probed
                      = hotpVerify_loop hmacHash opts (c + 1) (probed @ [c])"
          by (rule loop_step_mismatch[OF le mm])
        have ext: "\<And>m. (\<forall>c'. c + 1 \<le> c' \<and> c' < m \<longrightarrow> mismatch hmacHash opts c')
                     \<Longrightarrow> (\<forall>c'. c \<le> c' \<and> c' < m \<longrightarrow> mismatch hmacHash opts c')"
          using mm by (metis add.commute add1_zle_eq order_le_less)
        have up: "\<And>m. c \<le> m \<Longrightarrow> (probed @ [c]) @ [c + 1..m] = probed @ [c..m]"
          by (simp add: upto_rec1)
        from le have le': "c \<le> counter opts + orDefault 0 (HOTPVerifyOptions.window opts)"
          by (simp add: lastCounter_def)
        from "1.IH"[OF le' Inr False]
        consider (a) "?A hmacHash opts (c + 1) (probed @ [c])" | (b) "?B hmacHash opts (c + 1) (probed @ [c])"
          | (c) "?C hmacHash opts (c + 1) (probed @ [c])" by blast
        then show ?thesis
        proof cases
          case a
          then have "?A hmacHash opts c probed"
            using step up[OF le] ext[of "lastCounter opts + 1"] by auto
          then show ?thesis by blast
        next
          case b
          then obtain m where m: "c + 1 \<le> m" "m \<le> lastCounter opts"
            "\<forall>c'. c + 1 \<le> c' \<and> c' < m \<longrightarrow> mismatch hmacHash opts c'"
            "hotpGenerate hmacHash (withCounter opts m) = Inr (HOTPVerifyOptions.code opts)"
            "hotpVerify_loop hmacHash opts (c + 1) (probed @ [c])
               = ((probed @ [c]) @ [c + 1..m], Inr \<lparr>valid = True, delta = Some (m - counter opts)\<rparr>)"
            by blast
          have "c \<le> m" using m(1) by simp
          with m ext[OF m(3)] step up[of m] have "?B hmacHash opts c probed" by auto
          then show ?thesis by blast
        next
          case c
          then obtain m e where m: "c + 1 \<le> m" "m \<le> lastCounter opts"
            "\<forall>c'. c + 1 \<le> c' \<and> c' < m \<longrightarrow> mismatch hmacHash opts c'"
            "hotpGenerate hmacHash (withCounter opts m) = Inl e"
            "hotpVerify_loop hmacHash opts (c + 1) (probed @ [c])
               = ((probed @ [c]) @ [c + 1..m], Inl e)"
            by blast
          have "c \<le> m" using m(1) by simp
          with m ext[OF m(3)] step up[of m] have "?C hmacHash opts c probed"
            by (intro exI[of _ m] exI[of _ e]) simp
          then show ?thesis by blast
        qed
      qed
    qed
  qed
qed



lemma hotpVerifyDefaults_sel [simp]:
  "counter (hotpVerifyDefaults options) = counter options"
  "HOTPVerifyOptions.code (hotpVerifyDefaults options) = HOTPVerifyOptions.code options"
  "lastCounter (hotpVerifyDefaults options) = lastCounter options"
  by (simp_all add: hotpVerifyDefaults_def hoptGenerateDefaults_def lastCounter_def orDefault_def
      split: option.splits)

lemma mismatch_defaults [simp]:
  "mismatch hmacHash (hotpVerifyDefaults options) c = mismatch hmacHash options c"
  by (simp add: mismatch_def split: sum.splits)

lemma match_not_mismatch:
  "hotpGenerate hmacHash (withCounter opts c) = Inr (HOTPVerifyOptions.code opts)
     \<Longrightarrow> \<not> mismatch hmacHash opts c"
  by (simp add: mismatch_def)

lemma error_not_mismatch:
  "hotpGenerate hmacHash (withCounter opts c) = Inl e \<Longrightarrow> \<not> mismatch hmacHash opts c"
  by (simp add: mismatch_def)

lemma hotpVerify_run_cases:
  "(\<forall>c. counter opts \<le> c \<and> c \<le> lastCounter opts \<longrightarrow> mismatch hmacHash opts c) \<and>
     hotpVerify_run hmacHash opts
       = ([counter opts..lastCounter opts], Inr \<lparr>valid = False, delta = None\<rparr>)
   \<or> (\<exists>m. counter opts \<le> m \<and> m \<le> lastCounter opts \<and>
         (\<forall>c. counter opts \<le> c \<and> c < m \<longrightarrow> mismatch hmacHash opts c) \<and>
         hotpGenerate hmacHash (withCounter opts m) = Inr (HOTPVerifyOptions.code opts) \<and>
         hotpVerify_run hmacHash opts
           = ([counter opts..m], Inr \<lparr>valid = True, delta = Some (m - counter opts)\<rparr>))
   \<or> (\<exists>m e. counter opts \<le> m \<and> m \<le> lastCounter opts \<and>
         (\<forall>c. counter opts \<le> c \<and> c < m \<longrightarrow> mismatch hmacHash opts c) \<and>
         hotpGenerate hmacHash (withCounter opts m) = Inl e \<and>
         hotpVerify_run hmacHash opts = ([counter opts..m], Inl e))"
  using loop_cases[of "counter opts" "hotpVerifyDefaults opts" hmacHash "[]"]
  by (simp add: hotpVerify_run_def)

lemma hotpVerify_run_first_match:
  assumes "counter opts \<le> m" "m \<le> lastCounter opts"
    and "\<forall>c. counter opts \<le> c \<and> c < m \<longrightarrow> mismatch hmacHash opts c"
    and "hotpGenerate hmacHash (withCounter opts m) = Inr (HOTPVerifyOptions.code opts)"
  shows "hotpVerify_run hmacHash opts
           = ([counter opts..m], Inr \<lparr>valid = True, delta = Some (m - counter opts)\<rparr>)"
proof -
  have nm: "\<not> mismatch hmacHash opts m"
    by (rule match_not_mismatch[OF assms(4)])
  consider
    (a) "\<forall>c. counter opts \<le> c \<and> c \<le> lastCounter opts \<longrightarrow> mismatch hmacHash opts c"
  | (b) m' where "counter opts \<le> m'" "m' \<le> lastCounter opts"
      "\<forall>c. counter opts \<le> c \<and> c < m' \<longrightarrow> mismatch hmacHash opts c"
      "hotpGenerate hmacHash (withCounter opts m') = Inr (HOTPVerifyOptions.code opts)"
      "hotpVerify_run hmacHash opts
         = ([counter opts..m'], Inr \<lparr>valid = True, delta = Some (m' - counter opts)\<rparr>)"
  | (c) m' e where "counter opts \<le> m'" "m' \<le> lastCounter opts"
      "\<forall>c. counter opts \<le> c \<and> c < m' \<longrightarrow> mismatch hmacHash opts c"
      "hotpGenerate hmacHash (withCounter opts m') = Inl e"
    using hotpVerify_run_cases[of opts hmacHash] by blast
  then show ?thesis
  proof cases
    case a
    with assms(1,2) nm show ?thesis by blast
  next
    case b
    have "\<not> mismatch hmacHash opts m'" by (rule match_not_mismatch[OF b(4)])
    with assms(3) b(1) have "\<not> m' < m" by blast
    moreover from b(3) assms(1) nm have "\<not> m < m'" by blast
    ultimately have "m' = m" by simp
    with b(5) show ?thesis by simp
  next
    case c
    have "\<not> mismatch hmacHash opts m'" by (rule error_not_mismatch[OF c(4)])
    with assms(3) c(1) have "\<not> m' < m" by blast
    moreover from c(3) assms(1) nm have "\<not> m < m'" by blast
    ultimately have "m' = m" by simp
    with c(4) assms(4) show ?thesis by simp
  qed
qed

lemma hotpVerify_run_no_match:
  assumes "\<forall>c. counter opts \<le> c \<and> c \<le> lastCounter opts \<longrightarrow> mismatch hmacHash opts c"
  shows "hotpVerify_run hmacHash opts
           = ([counter opts..lastCounter opts], Inr \<lparr>valid = False, delta = None\<rparr>)"
  using hotpVerify_run_cases[of opts hmacHash] assms match_not_mismatch error_not_mismatch
  by blast

lemma hotpVerify_result_shape:
  assumes "hotpVerify hmacHash opts = Inr r"
  shows "r = \<lparr>valid = False, delta = None\<rparr>
         \<or> (\<exists>m. counter opts \<le> m \<and> m \<le> lastCounter opts
                \<and> r = \<lparr>valid = True, delta = Some (m - counter opts)\<rparr>)"
  using hotpVerify_run_cases[of opts hmacHash] assms
  by (auto simp: hotpVerify_def)

lemma hotpVerify_same_counter:
  assumes "hotpGenerate hmacHash g = Inr otp" "orDefault 0 w = 0"
  shows "hotpVerify_run hmacHash (verifyOptions g otp w)
           = ([counter g], Inr \<lparr>valid = True, delta = Some 0\<rparr>)"
proof -
  let ?o = "verifyOptions g otp w"
  have g: "withCounter ?o (counter ?o) = g"
    by (simp add: withCounter_def verifyOptions_def)
  have "hotpVerify_run hmacHash ?o
          = ([counter ?o..counter ?o],
              Inr \<lparr>valid = True, delta = Some (counter ?o - counter ?o)\<rparr>)"
  proof (rule hotpVerify_run_first_match)
    show "counter ?o \<le> lastCounter ?o"
      using assms(2) by (simp add: lastCounter_def verifyOptions_def)
    show "hotpGenerate hmacHash (withCounter ?o (counter ?o)) = Inr (HOTPVerifyOptions.code ?o)"
      using assms(1) by (simp add: g) (simp add: verifyOptions_def)
  qed auto
  then show ?thesis by (simp add: verifyOptions_def)
qed

lemma hotpVerify_probed_prefix:
  "\<exists>m. m \<le> lastCounter opts \<and> hotpVerify_probed hmacHash opts = [counter opts..m]"
proof -
  from hotpVerify_run_cases[of opts hmacHash]
  show ?thesis
    by (auto simp: hotpVerify_probed_def)
qed

lemma upto_prefix:
  "m \<le> n \<Longrightarrow> prefix [i..m] [i..n]"
proof (cases "i \<le> m")
  case True
  assume "m \<le> n"
  with True have "[i..n] = [i..m] @ [m + 1..n]"
    using upto_split2[of i m n] by simp
  then show ?thesis by (simp add: prefix_def)
next
  case False
  then show ?thesis by simp
qed

section \<open>The loop with the arithmetic of doubles\<close>

text \<open>
  On safe integers no sum or difference of the loop is rounded: the loop of the source
  ends and returns what the loop with exact arithmetic returns.
\<close>

lemma bitLength_le: "n < 2 ^ k \<Longrightarrow> bitLength n \<le> k"
proof (induction k arbitrary: n)
  case 0
  then show ?case by (simp add: bitLength.simps)
next
  case (Suc k)
  show ?case
  proof (cases "n = 0")
    case True
    then show ?thesis by (simp add: bitLength.simps)
  next
    case False
    from Suc.prems have "n div 2 < 2 ^ k" by simp
    from Suc.IH[OF this] False show ?thesis
      by (subst bitLength.simps) simp
  qed
qed

lemma toDouble_exact: "\<bar>x\<bar> < 2 ^ 53 \<Longrightarrow> toDouble x = x"
proof -
  assume a: "\<bar>x\<bar> < 2 ^ 53"
  then have "nat \<bar>x\<bar> < 2 ^ 53" by simp
  then have "bitLength (nat \<bar>x\<bar>) - 53 = 0"
    using bitLength_le[of "nat \<bar>x\<bar>" 53] by simp
  then show ?thesis
    by (simp add: toDouble_def roundHalfEven_def mult_sgn_abs)
qed

lemma toDouble_exact_2_53: "toDouble (2 ^ 53) = 2 ^ 53"
  by (simp add: toDouble_def roundHalfEven_def bitLength.simps)

lemma safeIntegers_defaults [simp]:
  "safeIntegers (hotpVerifyDefaults options) = safeIntegers options"
  by (simp add: safeIntegers_def)
     (simp add: hotpVerifyDefaults_def hoptGenerateDefaults_def orDefault_def split: option.splits)

lemma hotpVerify_loop_double_exact:
  "safeIntegers opts \<Longrightarrow> counter opts \<le> c \<Longrightarrow>
   hotpVerify_loop_double hmacHash opts c probed = Some (hotpVerify_loop hmacHash opts c probed)"
proof (induction hmacHash opts c probed rule: hotpVerify_loop.induct)
  case (1 hmacHash opts c probed)
  from "1.prems"(1)
  have last: "toDouble (counter opts + orDefault 0 (HOTPVerifyOptions.window opts))
                = counter opts + orDefault 0 (HOTPVerifyOptions.window opts)"
    by (simp add: safeIntegers_def lastCounter_def toDouble_exact)
  show ?case
  proof (cases "c \<le> counter opts + orDefault 0 (HOTPVerifyOptions.window opts)")
    case False
    then show ?thesis
      by (subst hotpVerify_loop_double.simps, subst hotpVerify_loop.simps) (simp add: last)
  next
    case le: True
    from le "1.prems" have b: "\<bar>c - counter opts\<bar> < 2 ^ 53" "- (2 ^ 53) < c + 1" "c + 1 \<le> 2 ^ 53"
      by (auto simp: safeIntegers_def lastCounter_def)
    have d: "toDouble (c - counter opts) = c - counter opts"
      by (rule toDouble_exact[OF b(1)])
    have s: "toDouble (c + 1) = c + 1"
    proof (cases "c + 1 = 2 ^ 53")
      case True
      then show ?thesis by (simp only: toDouble_exact_2_53)
    next
      case False
      with b(2,3) have "\<bar>c + 1\<bar> < 2 ^ 53" by simp
      then show ?thesis by (rule toDouble_exact)
    qed
    show ?thesis
    proof (cases "hotpGenerate hmacHash (withCounter opts c)")
      case (Inl e)
      with le show ?thesis
        by (subst hotpVerify_loop_double.simps, subst hotpVerify_loop.simps) (simp add: last)
    next
      case (Inr x)
      show ?thesis
      proof (cases "x = HOTPVerifyOptions.code opts")
        case True
        with le Inr show ?thesis
          by (subst hotpVerify_loop_double.simps, subst hotpVerify_loop.simps)
             (simp add: last d)
      next
        case False
        from "1.prems"(2) have "counter opts \<le> c + 1" by simp
        from "1.IH"[OF le Inr False "1.prems"(1) this]
        have "hotpVerify_loop_double hmacHash opts (c + 1) (probed @ [c])
                = Some (hotpVerify_loop hmacHash opts (c + 1) (probed @ [c]))" .
        with le Inr False show ?thesis
          by (subst hotpVerify_loop_double.simps, subst hotpVerify_loop.simps)
             (simp add: last s)
      qed
    qed
  qed
qed

lemma hotpVerify_run_double_exact:
  "safeIntegers options \<Longrightarrow>
   hotpVerify_run_double hmacHash options = Some (hotpVerify_run hmacHash options)"
  by (simp add: hotpVerify_run_double_def hotpVerify_run_def hotpVerify_loop_double_exact)

lemma hotpVerify_double_exact:
  "safeIntegers options \<Longrightarrow>
   hotpVerify_double hmacHash options = Some (hotpVerify hmacHash options)"
  "safeIntegers options \<Longrightarrow>
   hotpVerify_probed_double hmacHash options = Some (hotpVerify_probed hmacHash options)"
  by (simp_all add: hotpVerify_double_def hotpVerify_probed_double_def hotpVerify_def
      hotpVerify_probed_def hotpVerify_run_double_exact)

lemma hotpVerify_loop_double_shape:
  assumes "hotpVerify_loop_double hmacHash opts c probed = Some y"
  shows "\<forall>r. snd y = Inr r \<longrightarrow> (delta r \<noteq> None) = valid r"
proof (rule hotpVerify_loop_double.raw_induct[OF _ assms])
  fix f and hmacHash :: hmacHash and opts c probed y
  assume IH: "\<And>hmacHash opts c probed y. f hmacHash opts c probed = Some y \<Longrightarrow>
      \<forall>r. snd y = Inr r \<longrightarrow> (delta r \<noteq> None) = valid r"
    and step: "(if c \<le> toDouble (counter opts + orDefault 0 (HOTPVerifyOptions.window opts)) then
        (case hotpGenerate hmacHash (withCounter opts c) of
           Inl e \<Rightarrow> Some (probed @ [c], Inl e)
         | Inr code' \<Rightarrow>
             if code' = HOTPVerifyOptions.code opts
             then Some (probed @ [c],
                    Inr \<lparr>valid = True, delta = Some (toDouble (c - counter opts))\<rparr>)
             else f hmacHash opts (toDouble (c + 1)) (probed @ [c]))
      else Some (probed, Inr \<lparr>valid = False, delta = None\<rparr>)) = Some y"
  show "\<forall>r. snd y = Inr r \<longrightarrow> (delta r \<noteq> None) = valid r"
  proof (cases "c \<le> toDouble (counter opts + orDefault 0 (HOTPVerifyOptions.window opts))")
    case False
    with step show ?thesis by auto
  next
    case le: True
    show ?thesis
    proof (cases "hotpGenerate hmacHash (withCounter opts c)")
      case (Inl e)
      with le step show ?thesis by auto
    next
      case (Inr x)
      show ?thesis
      proof (cases "x = HOTPVerifyOptions.code opts")
        case True
        with le Inr step show ?thesis by auto
      next
        case False
        with le Inr step
        have "f hmacHash opts (toDouble (c + 1)) (probed @ [c]) = Some y" by simp
        then show ?thesis by (rule IH)
      qed
    qed
  qed
qed

lemma hotpVerify_double_shape:
  "hotpVerify_double hmacHash options = Some (Inr r) \<Longrightarrow> (delta r \<noteq> None) = valid r"
proof -
  assume "hotpVerify_double hmacHash options = Some (Inr r)"
  then obtain y where
    y: "hotpVerify_loop_double hmacHash (hotpVerifyDefaults options) (counter options) [] = Some y"
    and r: "snd y = Inr r"
    by (auto simp: hotpVerify_double_def hotpVerify_run_double_def)
  from hotpVerify_loop_double_shape[OF y] r show ?thesis by blast
qed

section \<open>TOTP verification against the specification's algorithm\<close>

lemma hotpVerify_defaults_cong:
  "hotpVerifyDefaults o1 = hotpVerifyDefaults o2 \<Longrightarrow>
   hotpVerify_run hmacHash o1 = hotpVerify_run hmacHash o2"
  by (simp add: hotpVerify_run_def)

lemma hotpGenerate_defaults_cong:
  "hoptGenerateDefaults g1 = hoptGenerateDefaults g2 \<Longrightarrow>
   hotpGenerate hmacHash g1 = hotpGenerate hmacHash g2"
  by (simp add: hotpGenerate_def)

lemma totpVerifyDefaults_sel [simp]:
  "time (totpVerifyDefaults options) = time options"
  "orDefault 30 (step (totpVerifyDefaults options)) = orDefault 30 (step options)"
  "orDefault 0 (TOTPVerifyOptions.window (totpVerifyDefaults options))
     = orDefault 0 (TOTPVerifyOptions.window options)"
  "TOTPVerifyOptions.code (totpVerifyDefaults options) = TOTPVerifyOptions.code options"
  "secret (totpVerifyDefaults options) = secret options"
  by (simp_all add: totpVerifyDefaults_def totpGenerateDefaults_def orDefault_def
      split: option.splits)

lemma totpVerify_unfold:
  "totpVerify hmacHash now options =
     (case generateCounterFromTime now (time options) (orDefault 30 (step options)) of
        Inl e \<Rightarrow> Inl e
      | Inr counter0 \<Rightarrow>
          (case hotpVerify hmacHash (hotpRequest options counter0) of
             Inl e \<Rightarrow> Inl e
           | Inr result \<Rightarrow>
               Inr (if valid result \<and> delta result \<noteq> None
                    then result\<lparr>delta :=
                           map_option (\<lambda>d. d - orDefault 0 (TOTPVerifyOptions.window options))
                             (delta result)\<rparr>
                    else result)))"
proof (cases "generateCounterFromTime now (time options) (orDefault 30 (step options))")
  case (Inl e)
  then show ?thesis by (simp add: totpVerify_def Let_def)
next
  case (Inr c0)
  have "hotpVerify hmacHash
          \<lparr>secret = secret options,
           digits = digits (totpVerifyDefaults options),
           encoding = encoding (totpVerifyDefaults options),
           algorithm = algorithm (totpVerifyDefaults options),
           counter = c0 - orDefault 0 (TOTPVerifyOptions.window options),
           HOTPVerifyOptions.code = TOTPVerifyOptions.code options,
           HOTPVerifyOptions.window = Some (orDefault 0 (TOTPVerifyOptions.window options) * 2)\<rparr>
        = hotpVerify hmacHash (hotpRequest options c0)"
    unfolding hotpVerify_def
    by (rule arg_cong[where f = snd], rule hotpVerify_defaults_cong)
       (simp add: hotpVerifyDefaults_def hoptGenerateDefaults_def hotpRequest_def
          totpVerifyDefaults_def totpGenerateDefaults_def orDefault_def split: option.splits)
  with Inr show ?thesis
    by (simp add: totpVerify_def Let_def split: sum.splits)
qed


lemma totpGenerate_unfold:
  "totpGenerate hmacHash now g =
     (case generateCounterFromTime now (time g) (orDefault 30 (step g)) of
        Inl e \<Rightarrow> Inl e
      | Inr c0 \<Rightarrow>
          hotpGenerate hmacHash
            \<lparr>secret = secret g, digits = digits g, encoding = encoding g,
             algorithm = algorithm g, counter = c0\<rparr>)"
proof -
  have "hotpGenerate hmacHash
          \<lparr>secret = secret (totpGenerateDefaults g), digits = digits (totpGenerateDefaults g),
           encoding = encoding (totpGenerateDefaults g),
           algorithm = algorithm (totpGenerateDefaults g), counter = c0\<rparr>
        = hotpGenerate hmacHash
            \<lparr>secret = secret g, digits = digits g, encoding = encoding g,
             algorithm = algorithm g, counter = c0\<rparr>" for c0
    by (rule hotpGenerate_defaults_cong)
       (simp add: hoptGenerateDefaults_def totpGenerateDefaults_def orDefault_def
          split: option.splits)
  moreover have "time (totpGenerateDefaults g) = time g"
    "orDefault 30 (step (totpGenerateDefaults g)) = orDefault 30 (step g)"
    by (simp_all add: totpGenerateDefaults_def orDefault_def split: option.splits)
  ultimately show ?thesis
    by (simp add: totpGenerate_def Let_def split: sum.splits)
qed

section \<open>Decimal rendering and the cut of \<^verbatim>\<open>hotpGenerate\<close>\<close>

lemma toString_nonempty: "toString n \<noteq> []"
  by (subst toString.simps) simp

lemma hotpGenerate_truncatedValue:
  "hotpGenerate hmacHash options =
     (case truncatedValue hmacHash options of
        Inl e \<Rightarrow> Inl e
      | Inr v \<Rightarrow> Inr (substr (toString v) (- orDefault 6 (digits options))))"
  by (simp add: hotpGenerate_def truncatedValue_def hoptGenerateDefaults_def orDefault_def
      split: sum.splits option.splits)

lemma substr_negative:
  assumes "1 \<le> d"
  shows "substr s (- d) = drop (length s - nat d) s"
proof -
  have "nat (max (int (length s) + - d) 0) = length s - nat d"
    using assms by (simp add: max_def) arith
  with assms show ?thesis
    by (simp add: substr_def Let_def)
qed


lemma digit_char_value:
  "d < 10 \<Longrightarrow> of_char (''0123456789'' ! d) - 48 = (d::nat)"
proof -
  assume "d < 10"
  then have "d \<in> {0, 1, 2, 3, 4, 5, 6, 7, 8, 9}" by auto
  then show ?thesis by auto
qed

lemma decimalValue_snoc:
  "decimalValue (s @ [ch]) = 10 * decimalValue s + (of_char ch - 48)"
  by (simp add: decimalValue_def)

lemma decimalValue_toString: "decimalValue (toString n) = n"
proof (induction n rule: toString.induct)
  case (1 n)
  show ?case
  proof (cases "n < 10")
    case True
    then show ?thesis
      by (subst toString.simps) (simp add: decimalValue_def digit_char_value)
  next
    case False
    with 1 have "decimalValue (toString (n div 10)) = n div 10" by simp
    with False show ?thesis
      by (subst toString.simps) (simp add: decimalValue_snoc digit_char_value)
  qed
qed

lemma toString_length_upper: "n < 10 ^ length (toString n)"
proof (induction n rule: toString.induct)
  case (1 n)
  show ?case
  proof (cases "n < 10")
    case True
    then show ?thesis by (subst toString.simps) simp
  next
    case False
    with 1 have "n div 10 < 10 ^ length (toString (n div 10))" by simp
    then have "n < 10 * 10 ^ length (toString (n div 10))" by linarith
    with False show ?thesis by (subst toString.simps) simp
  qed
qed

lemma toString_length_lower: "0 < n \<Longrightarrow> 10 ^ (length (toString n) - 1) \<le> n"
proof (induction n rule: toString.induct)
  case (1 n)
  show ?case
  proof (cases "n < 10")
    case True
    with "1.prems" show ?thesis by (subst toString.simps) simp
  next
    case False
    then have pos: "0 < n div 10" by simp
    with 1 False have ih: "10 ^ (length (toString (n div 10)) - 1) \<le> n div 10" by simp
    have ne: "length (toString (n div 10)) \<noteq> 0" by (simp add: toString_nonempty)
    have "10 ^ length (toString (n div 10)) = (10::nat) * 10 ^ (length (toString (n div 10)) - 1)"
      using ne by (cases "length (toString (n div 10))") simp_all
    also have "\<dots> \<le> 10 * (n div 10)" using ih by simp
    also have "\<dots> \<le> n" by simp
    finally show ?thesis using False by (subst toString.simps) simp
  qed
qed

text \<open>
  The cut of \<^verbatim>\<open>hotpGenerate\<close> against the formatter of the specification: for
  \<open>digits \<ge> 1\<close> the two agree exactly when the truncated value has at least \<open>digits\<close>
  decimal digits.
\<close>

lemma toString_small: "n < 10 \<Longrightarrow> toString n = [''0123456789'' ! n]"
  by (subst toString.simps) simp

lemma toString_large:
  "\<not> n < 10 \<Longrightarrow> toString n = toString (n div 10) @ [''0123456789'' ! (n mod 10)]"
  by (subst toString.simps) simp

lemma formatCode_spec_fixedWidth: "1 \<le> d \<Longrightarrow> formatCode_spec v d = fixedWidth d v"
proof (induction d arbitrary: v)
  case 0
  then show ?case by simp
next
  case (Suc d)
  let ?u = "v mod 10 ^ Suc d"
  have umod: "?u mod 10 = v mod 10"
    by (simp add: mod_mod_cancel)
  have udiv: "?u div 10 = (v div 10) mod 10 ^ d"
    by (simp add: div_mult2_eq mod_mult2_eq)
  show ?case
  proof (cases "d = 0")
    case True
    then show ?thesis
      by (simp add: formatCode_spec_def toString_small)
  next
    case False
    then have ih: "formatCode_spec (v div 10) d = fixedWidth d (v div 10)"
      using Suc.IH by simp
    show ?thesis
    proof (cases "?u < 10")
      case True
      then have "?u div 10 = 0" by simp
      with udiv have z: "(v div 10) mod 10 ^ d = 0" by simp
      from False have "replicate (d - 1) (CHR ''0'') @ ''0'' = replicate d (CHR ''0'')"
        by (cases d) (simp_all add: replicate_append_same)
      with z have "formatCode_spec (v div 10) d = replicate d (CHR ''0'')"
        by (simp add: formatCode_spec_def toString_small)
      moreover from True umod have "?u = v mod 10" by simp
      ultimately show ?thesis
        using True ih by (simp add: formatCode_spec_def toString_small)
    next
      case ge: False
      have len: "length (toString (?u div 10)) \<le> d"
      proof -
        have "?u div 10 < 10 ^ d" by (subst udiv) simp
        moreover have "10 ^ (length (toString (?u div 10)) - 1) \<le> ?u div 10"
          using ge by (intro toString_length_lower) simp
        ultimately have "(10::nat) ^ (length (toString (?u div 10)) - 1) < 10 ^ d"
          by linarith
        then have "length (toString (?u div 10)) - 1 < d" by simp
        then show ?thesis by simp
      qed
      have "formatCode_spec v (Suc d)
              = replicate (d - length (toString (?u div 10))) (CHR ''0'')
                  @ toString (?u div 10) @ [''0123456789'' ! (?u mod 10)]"
        using ge len by (simp add: formatCode_spec_def Let_def toString_large)
      also have "\<dots> = formatCode_spec (v div 10) d @ [''0123456789'' ! (v mod 10)]"
        unfolding udiv umod by (simp add: formatCode_spec_def Let_def)
      finally show ?thesis using ih by simp
    qed
  qed
qed

lemma length_fixedWidth [simp]: "length (fixedWidth d v) = d"
  by (induction d arbitrary: v) simp_all

lemma drop_toString_fixedWidth:
  "d \<le> length (toString v) \<Longrightarrow> drop (length (toString v) - d) (toString v) = fixedWidth d v"
proof (induction d arbitrary: v)
  case 0
  then show ?case by simp
next
  case (Suc d)
  show ?case
  proof (cases "v < 10")
    case True
    with Suc.prems have "d = 0" by (simp add: toString_small)
    with True show ?thesis by (simp add: toString_small)
  next
    case False
    with Suc.prems have le: "d \<le> length (toString (v div 10))"
      by (simp add: toString_large)
    from Suc.IH[OF le] le False show ?thesis
      by (simp add: toString_large Suc_diff_le)
  qed
qed

lemma hotpGenerate_meets_spec_iff:
  assumes "truncatedValue hmacHash options = Inr v"
    and "1 \<le> orDefault 6 (digits options)"
  shows "(hotpGenerate hmacHash options
            = Inr (formatCode_spec v (nat (orDefault 6 (digits options)))))
         = (nat (orDefault 6 (digits options)) \<le> length (toString v))"
proof -
  let ?d = "nat (orDefault 6 (digits options))"
  have d: "1 \<le> ?d" using assms(2) by simp
  have gen: "hotpGenerate hmacHash options
               = Inr (drop (length (toString v) - ?d) (toString v))"
    using assms by (simp add: hotpGenerate_truncatedValue substr_negative)
  have spec: "formatCode_spec v ?d = fixedWidth ?d v"
    by (rule formatCode_spec_fixedWidth[OF d])
  show ?thesis
  proof (cases "?d \<le> length (toString v)")
    case True
    with gen spec drop_toString_fixedWidth[OF True] show ?thesis by simp
  next
    case False
    then have "length (drop (length (toString v) - ?d) (toString v)) \<noteq> length (fixedWidth ?d v)"
      by simp
    then have "drop (length (toString v) - ?d) (toString v) \<noteq> fixedWidth ?d v"
      by metis
    with gen spec False show ?thesis by simp
  qed
qed

section \<open>Round trip of the codecs\<close>

lemma length_bitsOf [simp]: "length (bitsOf n v) = n"
  by (induction n arbitrary: v) simp_all

lemma valueOf_snoc: "valueOf (bs @ [b]) = 2 * valueOf bs + (if b then 1 else 0)"
  by (simp add: valueOf_def)

lemma valueOf_bitsOf: "v < 2 ^ n \<Longrightarrow> valueOf (bitsOf n v) = v"
proof (induction n arbitrary: v)
  case 0
  then show ?case by (simp add: valueOf_def)
next
  case (Suc n)
  then have "v div 2 < 2 ^ n" by simp
  with Suc.IH have "valueOf (bitsOf n (v div 2)) = v div 2" by blast
  then show ?case by (simp add: valueOf_snoc)
qed

lemma valueOf_less: "valueOf bs < 2 ^ length bs"
  by (induction bs rule: rev_induct) (simp_all add: valueOf_snoc valueOf_def)

lemma bitsOf_valueOf: "bitsOf (length bs) (valueOf bs) = bs"
  by (induction bs rule: rev_induct) (simp_all add: valueOf_snoc valueOf_def)

lemma chunks_Nil [simp]: "chunks k [] = []"
  by (simp add: chunks.simps)

lemma chunks_Cons:
  "0 < k \<Longrightarrow> xs \<noteq> [] \<Longrightarrow> chunks k xs = take k xs # chunks k (drop k xs)"
  by (subst chunks.simps) simp

lemma chunks_concat:
  "0 < k \<Longrightarrow> (\<And>xs. xs \<in> set xss \<Longrightarrow> length xs = k) \<Longrightarrow> chunks k (concat xss) = xss"
proof (induction xss)
  case Nil
  then show ?case by simp
next
  case (Cons x xss)
  then have lx: "length x = k" by simp
  with Cons.prems(1) have "x @ concat xss \<noteq> []" by auto
  with Cons lx show ?case by (simp add: chunks_Cons)
qed

lemma concat_chunks: "0 < k \<Longrightarrow> concat (chunks k xs) = xs"
proof (induction k xs rule: chunks.induct)
  case (1 k xs)
  show ?case
  proof (cases "xs = []")
    case True
    then show ?thesis by simp
  next
    case False
    with 1 show ?thesis by (simp add: chunks_Cons)
  qed
qed

lemma chunks_lengths:
  "0 < k \<Longrightarrow> k dvd length xs \<Longrightarrow> c \<in> set (chunks k xs) \<Longrightarrow> length c = k"
proof (induction k xs rule: chunks.induct)
  case (1 k xs)
  show ?case
  proof (cases "xs = []")
    case True
    with "1.prems" show ?thesis by simp
  next
    case False
    with "1.prems"(1,2) have ge: "k \<le> length xs"
      by (simp add: dvd_imp_le)
    with "1.prems"(2) have dv: "k dvd length (drop k xs)"
      by (simp add: dvd_diff_nat)
    from "1.prems"(3) False "1.prems"(1)
    have "c = take k xs \<or> c \<in> set (chunks k (drop k xs))"
      by (simp add: chunks_Cons)
    then show ?thesis
    proof
      assume "c = take k xs"
      with ge show ?thesis by simp
    next
      assume "c \<in> set (chunks k (drop k xs))"
      with "1.IH" False "1.prems"(1) dv show ?thesis by simp
    qed
  qed
qed

lemma indexOf_nth: "distinct xs \<Longrightarrow> i < length xs \<Longrightarrow> indexOf xs (xs ! i) = i"
proof (induction xs arbitrary: i)
  case Nil
  then show ?case by simp
next
  case (Cons x xs)
  then show ?case by (cases i) auto
qed

lemma length_bytes_bits: "length (concat (map byteBits bs)) = 8 * length bs"
  by (induction bs) (simp_all add: byteBits_def)

lemma pad_amount_dvd:
  assumes "0 < (k::nat)"
  shows "k dvd n + (k - n mod k) mod k"
proof (cases "n mod k = 0")
  case True
  then show ?thesis by auto
next
  case False
  from assms have lt: "n mod k < k" by simp
  have "n + (k - n mod k) = k * (n div k) + (n mod k + (k - n mod k))"
    by simp
  also have "\<dots> = k * (n div k) + k" using lt by simp
  finally have "k dvd n + (k - n mod k)" by simp
  moreover from False assms have "(k - n mod k) mod k = k - n mod k" by simp
  ultimately show ?thesis by simp
qed

lemma padBits_dvd: "0 < k \<Longrightarrow> k dvd length (padBits k bs)"
  by (simp add: padBits_def pad_amount_dvd)


lemma baseDecode_baseEncode:
  assumes k: "0 < k" "k \<le> 8" and len: "length alphabet = 2 ^ k" and dist: "distinct alphabet"
  shows "baseDecode k alphabet (baseEncode k alphabet bs) = Some bs"
proof -
  let ?bits = "concat (map byteBits bs)"
  let ?padded = "padBits k ?bits"
  let ?cs = "chunks k ?padded"
  let ?text = "map (digitChar alphabet) ?cs"
  have clen: "length c = k" if "c \<in> set ?cs" for c
    using chunks_lengths[OF k(1) padBits_dvd[OF k(1)] that] .
  have cval: "valueOf c < length alphabet" if "c \<in> set ?cs" for c
    using valueOf_less[of c] clen[OF that] len by simp
  have inalpha: "list_all (\<lambda>ch. ch \<in> set alphabet) ?text"
    using cval by (simp add: list_all_iff digitChar_def)
  have "map (charDigit k alphabet) ?text = map (\<lambda>c. c) ?cs"
    unfolding map_map
  proof (rule map_cong[OF refl])
    fix c assume c: "c \<in> set ?cs"
    have "indexOf alphabet (alphabet ! valueOf c) = valueOf c"
      by (rule indexOf_nth[OF dist cval[OF c]])
    then show "(charDigit k alphabet \<circ> digitChar alphabet) c = c"
      using bitsOf_valueOf[of c] clen[OF c] by (simp add: charDigit_def digitChar_def)
  qed
  then have bits: "concat (map (charDigit k alphabet) ?text) = ?padded"
    using concat_chunks[OF k(1)] by simp
  have plen: "length ?padded = 8 * length bs + (k - (8 * length bs) mod k) mod k"
    by (simp add: padBits_def length_bytes_bits)
  have "(k - (8 * length bs) mod k) mod k < k"
    using k(1) by simp
  with k(2) have "(k - (8 * length bs) mod k) mod k < 8" by linarith
  then have "length ?padded div 8 = length bs"
    unfolding plen by simp
  then have tk: "take (8 * (length ?padded div 8)) ?padded = ?bits"
    by (simp add: padBits_def length_bytes_bits)
  have ch8: "chunks 8 ?bits = map byteBits bs"
    by (rule chunks_concat) (auto simp: byteBits_def)
  have "map bitsByte (map byteBits bs) = bs"
  proof -
    have "bitsByte (byteBits b) = b" for b
    proof -
      have "unat b < 2 ^ 8" using unsigned_less[of b] by simp
      then show ?thesis by (simp add: valueOf_bitsOf bitsByte_def byteBits_def)
    qed
    then show ?thesis by (simp add: map_idI)
  qed
  with inalpha bits tk ch8 show ?thesis
    by (simp add: baseDecode_def baseEncode_def Let_def)
qed

lemma baseEncode_in_alphabet:
  assumes "0 < k" "length alphabet = 2 ^ k" "ch \<in> set (baseEncode k alphabet bs)"
  shows "ch \<in> set alphabet"
proof -
  from assms(3) obtain c where
    c: "c \<in> set (chunks k (padBits k (concat (map byteBits bs))))"
    and ch: "ch = alphabet ! valueOf c"
    by (auto simp: baseEncode_def digitChar_def)
  have "length c = k"
    using chunks_lengths[OF assms(1) padBits_dvd[OF assms(1)] c] .
  with valueOf_less[of c] assms(2) have "valueOf c < length alphabet" by simp
  with ch show ?thesis by simp
qed

lemma filter_padTo:
  "CHR ''='' \<notin> set s \<Longrightarrow> filter (\<lambda>ch. ch \<noteq> CHR ''='') (padTo n s) = s"
  by (auto simp: padTo_def filter_id_conv)

lemma takeWhile_padding:
  "x \<notin> set s \<Longrightarrow> takeWhile (\<lambda>ch. ch \<noteq> x) (s @ replicate m x) = s"
  by (induction s) (cases m, auto)

lemma dropWhile_padding:
  "x \<notin> set s \<Longrightarrow> dropWhile (\<lambda>ch. ch \<noteq> x) (s @ replicate m x) = replicate m x"
  by (induction s) (cases m, auto)

lemma unpad_padTo:
  assumes "0 < n" "CHR ''='' \<notin> set s"
  shows "unpad n (padTo n s) = Some s"
proof -
  have "n dvd length (padTo n s)"
    using pad_amount_dvd[OF assms(1), of "length s"] by (simp add: padTo_def)
  then have "length (padTo n s) mod n = 0" by (simp add: dvd_eq_mod_eq_0)
  then show ?thesis
    using assms(2)
    by (simp add: unpad_def) (simp add: padTo_def takeWhile_padding dropWhile_padding list_all_iff)
qed

lemma bitsOf_numeral: "bitsOf (numeral n) v = bitsOf (pred_numeral n) (v div 2) @ [odd v]"
  by (simp add: numeral_eq_Suc)

lemma replicate_numeral: "replicate (numeral n) x = x # replicate (pred_numeral n) x"
  by (simp add: numeral_eq_Suc)

lemma hex_roundtrip: "hex_decode (Buffer_toString_hex bs) = Some bs"
  unfolding hex_decode_def Buffer_toString_hex_def
  by (rule baseDecode_baseEncode) (simp_all add: hex_alphabet_def)

lemma base32_body_no_padding: "CHR ''='' \<notin> set (baseEncode 5 base32_alphabet bs)"
proof
  assume "CHR ''='' \<in> set (baseEncode 5 base32_alphabet bs)"
  then have "CHR ''='' \<in> set base32_alphabet"
    by (rule baseEncode_in_alphabet[rotated 2]) (simp_all add: base32_alphabet_def)
  then show False by (simp add: base32_alphabet_def)
qed

lemma base64_body_no_padding: "CHR ''='' \<notin> set (baseEncode 6 base64_alphabet bs)"
proof
  assume "CHR ''='' \<in> set (baseEncode 6 base64_alphabet bs)"
  then have "CHR ''='' \<in> set base64_alphabet"
    by (rule baseEncode_in_alphabet[rotated 2]) (simp_all add: base64_alphabet_def)
  then show False by (simp add: base64_alphabet_def)
qed

lemma base32_roundtrip: "base32_decode (base32_encode bs) = Some bs"
proof -
  have "baseDecode 5 base32_alphabet (baseEncode 5 base32_alphabet bs) = Some bs"
    by (rule baseDecode_baseEncode) (simp_all add: base32_alphabet_def)
  then show ?thesis
    by (simp add: base32_decode_def base32_encode_def unpad_padTo base32_body_no_padding)
qed

lemma base64_roundtrip: "base64_decode (Buffer_toString_base64 bs) = Some bs"
proof -
  have "baseDecode 6 base64_alphabet (baseEncode 6 base64_alphabet bs) = Some bs"
    by (rule baseDecode_baseEncode) (simp_all add: base64_alphabet_def)
  then show ?thesis
    by (simp add: base64_decode_def Buffer_toString_base64_def unpad_padTo
        base64_body_no_padding)
qed

lemma base32_strip_repad:
  "padTo 8 (filter (\<lambda>ch. ch \<noteq> CHR ''='') (base32_encode bs)) = base32_encode bs"
  by (simp add: base32_encode_def filter_padTo base32_body_no_padding)

lemma generateSecret_fields:
  "generateSecret randomstring options ascii = randomstring (orDefault 12 (length' options))"
  "generateSecret randomstring options hex
     = Buffer_toString_hex (Buffer_from_ascii (randomstring (orDefault 12 (length' options))))"
  "generateSecret randomstring options base32
     = filter (\<lambda>ch. ch \<noteq> CHR ''='')
         (base32_encode (Buffer_from_ascii (randomstring (orDefault 12 (length' options)))))"
  "generateSecret randomstring options base64
     = Buffer_toString_base64 (Buffer_from_ascii (randomstring (orDefault 12 (length' options))))"
  by (simp_all add: generateSecret_def Let_def orDefault_def)

text \<open>Unfolding rules for evaluating the model at concrete options.\<close>

lemmas eval_defs = hotpVerify_def hotpVerify_probed_def hotpVerify_run_def hotpVerifyDefaults_def
  verifyOptions_def hotpVerify_loop.simps withCounter_def lastCounter_def mismatch_def
  hotpGenerate_def rfc4226_hmacHash_def rfc4226_options_def rfc4226_digests_def
  hoptGenerateDefaults_def orDefault_def dynamicTruncate_def readUInt32BE_def substr_def
  totpVerify_def totpGenerate_def generateCounterFromTime_def totpVerifyDefaults_def
  totpGenerateDefaults_def totpVerifyOptions_def hotpRequest_def rfc6238_options_def
  truncatedValue_def formatCode_spec_def toString.simps

text \<open>The same for the loop with the arithmetic of doubles: the first three rules are
  unfolded first, the others evaluate the loop.\<close>

lemmas double_run_defs = hotpVerify_double_def hotpVerify_probed_double_def
  hotpVerify_run_double_def Let_def

lemmas double_defs = hotpVerify_loop_double.simps toDouble_def roundHalfEven_def
  bitLength.simps safeIntegers_def

lemmas codec_defs = Buffer_from_ascii_def Buffer_toString_hex_def Buffer_toString_base64_def
  base32_encode_def hex_decode_def base32_decode_def base64_decode_def
  hex_alphabet_def base32_alphabet_def base64_alphabet_def
  baseEncode_def baseDecode_def padTo_def unpad_def padBits_def valueOf_def chunks.simps
  byteBits_def bitsByte_def digitChar_def charDigit_def
  bitsOf_numeral replicate_numeral generateSecret_def

text \<open>
  With window 0 the loop of the source computes \<open>counter + 0\<close> and \<open>c - c\<close> only: for every
  counter that is a double, also beyond the safe integers, verifying the code generated
  at the same counter returns \<^verbatim>\<open>{valid: true, delta: 0}\<close>, as with exact arithmetic.
\<close>

lemma hotpVerify_double_same_counter:
  assumes "hotpGenerate hmacHash g = Inr otp" "orDefault 0 w = 0"
    and "toDouble (counter g) = counter g"
  shows "hotpVerify_double hmacHash (verifyOptions g otp w)
           = Some (Inr \<lparr>valid = True, delta = Some 0\<rparr>)"
proof -
  let ?v = "verifyOptions g otp w"
  let ?o = "hotpVerifyDefaults ?v"
  have c: "counter ?v = counter g" and cd: "HOTPVerifyOptions.code ?v = otp"
    by (simp_all add: verifyOptions_def)
  have w: "orDefault 0 (HOTPVerifyOptions.window ?o) = 0"
    using assms(2)
    by (simp add: verifyOptions_def hotpVerifyDefaults_def hoptGenerateDefaults_def orDefault_def
        split: option.splits)
  have "withCounter ?v (counter g) = g"
    by (simp add: withCounter_def verifyOptions_def)
  with assms(1) have gen: "hotpGenerate hmacHash (withCounter ?v (counter g)) = Inr otp"
    by simp
  have z: "toDouble 0 = 0"
    by (simp add: toDouble_def roundHalfEven_def)
  have "hotpVerify_loop_double hmacHash ?o (counter g) []
          = Some ([counter g], Inr \<lparr>valid = True, delta = Some 0\<rparr>)"
    by (subst hotpVerify_loop_double.simps) (simp add: w c cd gen assms(3) z)
  then show ?thesis
    by (simp add: hotpVerify_double_def hotpVerify_run_double_def c)
qed

text \<open>
  Beyond the safe integers the loop of the source need not end. For the RFC 4226 key, at
  counter \<open>2 ^ 53 - 1\<close> with window 1 and a code that neither counter of the range
  generates, \<^verbatim>\<open>c += 1\<close> leads from \<open>2 ^ 53 - 1\<close> to \<open>2 ^ 53\<close> and from there, rounded, to
  \<open>2 ^ 53\<close> again: the call never returns.
\<close>

lemma hotpVerify_loop_double_stuck:
  assumes "hotpVerify_loop_double hmacHash opts c probed = Some y"
  shows "\<not> (hmacHash = rfc4226_hmacHash \<and>
            opts = hotpVerifyDefaults
                     (verifyOptions (rfc4226_options 9007199254740991) ''000000'' (Some 1)) \<and>
            c = 9007199254740992)"
proof (rule hotpVerify_loop_double.raw_induct[OF _ assms])
  fix f and hmacHash :: hmacHash and opts c probed y
  assume IH: "\<And>hmacHash opts c probed y. f hmacHash opts c probed = Some y \<Longrightarrow>
      \<not> (hmacHash = rfc4226_hmacHash \<and>
            opts = hotpVerifyDefaults
                     (verifyOptions (rfc4226_options 9007199254740991) ''000000'' (Some 1)) \<and>
            c = 9007199254740992)"
    and step: "(if c \<le> toDouble (counter opts + orDefault 0 (HOTPVerifyOptions.window opts)) then
        (case hotpGenerate hmacHash (withCounter opts c) of
           Inl e \<Rightarrow> Some (probed @ [c], Inl e)
         | Inr code' \<Rightarrow>
             if code' = HOTPVerifyOptions.code opts
             then Some (probed @ [c],
                    Inr \<lparr>valid = True, delta = Some (toDouble (c - counter opts))\<rparr>)
             else f hmacHash opts (toDouble (c + 1)) (probed @ [c]))
      else Some (probed, Inr \<lparr>valid = False, delta = None\<rparr>)) = Some y"
  show "\<not> (hmacHash = rfc4226_hmacHash \<and>
            opts = hotpVerifyDefaults
                     (verifyOptions (rfc4226_options 9007199254740991) ''000000'' (Some 1)) \<and>
            c = 9007199254740992)"
  proof
    assume a: "hmacHash = rfc4226_hmacHash \<and>
            opts = hotpVerifyDefaults
                     (verifyOptions (rfc4226_options 9007199254740991) ''000000'' (Some 1)) \<and>
            c = 9007199254740992"
    from step have "f hmacHash opts c (probed @ [c]) = Some y"
      unfolding conjunct1[OF a] conjunct1[OF conjunct2[OF a]] conjunct2[OF conjunct2[OF a]]
      by (simp add: eval_defs toDouble_def roundHalfEven_def bitLength.simps)
    from IH[OF this] a show False by blast
  qed
qed

lemma hotpVerify_double_never_returns:
  "hotpVerify_double rfc4226_hmacHash
     (verifyOptions (rfc4226_options 9007199254740991) ''000000'' (Some 1)) = None"
proof -
  let ?o = "hotpVerifyDefaults
              (verifyOptions (rfc4226_options 9007199254740991) ''000000'' (Some 1))"
  have "hotpVerify_loop_double rfc4226_hmacHash ?o 9007199254740992 [9007199254740991] = None"
    using hotpVerify_loop_double_stuck[of rfc4226_hmacHash ?o 9007199254740992 "[9007199254740991]"]
    by (cases "hotpVerify_loop_double rfc4226_hmacHash ?o 9007199254740992 [9007199254740991]")
       auto
  moreover have "hotpVerify_loop_double rfc4226_hmacHash ?o 9007199254740991 []
       = hotpVerify_loop_double rfc4226_hmacHash ?o 9007199254740992 [9007199254740991]"
    by (subst hotpVerify_loop_double.simps)
       (simp add: eval_defs toDouble_def roundHalfEven_def bitLength.simps)
  moreover have "counter ?o = 9007199254740991"
    by (simp add: verifyOptions_def rfc4226_options_def)
  ultimately show ?thesis
    unfolding hotpVerify_double_def hotpVerify_run_double_def Let_def by simp
qed

section \<open>Claims\<close>

text \<open>
  C10 (amended). For every input with a negative window whose counter and window are
  integers and, with their sum, safe integers, \<^verbatim>\<open>hotpVerify\<close> returns \<^verbatim>\<open>{valid: false}\<close>
  with no delta, and calls \<^verbatim>\<open>hotpGenerate\<close> at no counter: the search range is empty. The
  result does not depend on \<open>hmacHash\<close>; in particular it is not an error even where
  every call of \<open>hmacHash\<close> would fail. (Beyond the safe integers the sum
  \<^verbatim>\<open>counter + window\<close> can round back to \<open>counter\<close>: at counter \<open>2 ^ 53 + 4\<close> with window
  \<open>-1\<close> the loop body runs once.)
\<close>

theorem hotpVerify_negative_window:
  "safeIntegers options \<Longrightarrow> orDefault 0 (HOTPVerifyOptions.window options) < 0 \<Longrightarrow>
   hotpVerify_double hmacHash options = Some (Inr \<lparr>valid = False, delta = None\<rparr>) \<and>
   hotpVerify_probed_double hmacHash options = Some []"
proof -
  assume s: "safeIntegers options" and "orDefault 0 (HOTPVerifyOptions.window options) < 0"
  then have "lastCounter options < counter options"
    by (simp add: lastCounter_def)
  then have "lastCounter (hotpVerifyDefaults options) < counter (hotpVerifyDefaults options)"
    by simp
  from loop_exhausted[OF this]
  have "hotpVerify hmacHash options = Inr \<lparr>valid = False, delta = None\<rparr>"
    "hotpVerify_probed hmacHash options = []"
    by (simp_all add: hotpVerify_def hotpVerify_probed_def hotpVerify_run_def)
  with s show ?thesis by (simp add: hotpVerify_double_exact)
qed

theorem hotpVerify_negative_window_witness:
  "safeIntegers (verifyOptions (rfc4226_options 0) ''755224'' (Some (- 1))) \<and>
   orDefault 0 (HOTPVerifyOptions.window
       (verifyOptions (rfc4226_options 0) ''755224'' (Some (- 1)))) < 0 \<and>
   hotpVerify_double (\<lambda>opts. Inl InvalidSecretEncoding)
       (verifyOptions (rfc4226_options 0) ''755224'' (Some (- 1)))
     = Some (Inr \<lparr>valid = False, delta = None\<rparr>) \<and>
   hotpVerify_probed_double (\<lambda>opts. Inl InvalidSecretEncoding)
       (verifyOptions (rfc4226_options 0) ''755224'' (Some (- 1))) = Some []"
proof -
  have s: "safeIntegers (verifyOptions (rfc4226_options 0) ''755224'' (Some (- 1)))"
    by (simp add: safeIntegers_def lastCounter_def verifyOptions_def rfc4226_options_def
        orDefault_def)
  have h: "orDefault 0 (HOTPVerifyOptions.window
       (verifyOptions (rfc4226_options 0) ''755224'' (Some (- 1)))) < 0"
    by (simp add: verifyOptions_def orDefault_def)
  show ?thesis
    using s h hotpVerify_negative_window[OF s h, of "\<lambda>opts. Inl InvalidSecretEncoding"]
    by simp
qed

theorem hotpVerify_negative_window_counterexample:
  "orDefault 0 (HOTPVerifyOptions.window
       (verifyOptions (rfc4226_options 9007199254740996) ''349090'' (Some (- 1)))) < 0 \<and>
   hotpVerify_double rfc4226_hmacHash
       (verifyOptions (rfc4226_options 9007199254740996) ''349090'' (Some (- 1)))
     = Some (Inr \<lparr>valid = True, delta = Some 0\<rparr>) \<and>
   hotpVerify_probed_double rfc4226_hmacHash
       (verifyOptions (rfc4226_options 9007199254740996) ''349090'' (Some (- 1)))
     = Some [9007199254740996]"
  unfolding double_run_defs by (simp add: eval_defs double_defs)

text \<open>
  C3. If \<^verbatim>\<open>hotpGenerate\<close> produces a code for some options (the secret is valid for its
  encoding, the counter is one the helper accepts), then \<^verbatim>\<open>hotpVerify\<close> with the same
  options, that code, and window 0 (given or defaulted) returns
  \<^verbatim>\<open>{valid: true, delta: 0}\<close>.
\<close>

theorem hotpVerify_hotpGenerate_roundtrip:
  "hotpGenerate hmacHash g = Inr otp \<Longrightarrow> w \<in> {None, Some 0} \<Longrightarrow>
   hotpVerify hmacHash (verifyOptions g otp w) = Inr \<lparr>valid = True, delta = Some 0\<rparr>"
proof -
  assume a: "hotpGenerate hmacHash g = Inr otp" and "w \<in> {None, Some 0}"
  then have "orDefault 0 w = 0" by (auto simp: orDefault_def)
  from hotpVerify_same_counter[OF a this] show ?thesis by (simp add: hotpVerify_def)
qed

theorem hotpVerify_hotpGenerate_roundtrip_witness:
  "hotpGenerate rfc4226_hmacHash (rfc4226_options 1) = Inr ''287082'' \<and>
   Some 0 \<in> {None, Some (0::int)} \<and>
   hotpVerify rfc4226_hmacHash (verifyOptions (rfc4226_options 1) ''287082'' (Some 0))
     = Inr \<lparr>valid = True, delta = Some 0\<rparr>"
proof -
  have h: "hotpGenerate rfc4226_hmacHash (rfc4226_options 1) = Inr ''287082''"
    by (simp add: eval_defs)
  have m: "Some 0 \<in> {None, Some (0::int)}" by simp
  show ?thesis
    using h m hotpVerify_hotpGenerate_roundtrip[OF h m] by simp
qed

text \<open>The search with exact arithmetic: the log of calls, the first match, and what a
  valid result reports.\<close>

lemma hotpVerify_exact_forward_first_match:
  "prefix (hotpVerify_probed hmacHash opts) [counter opts..lastCounter opts] \<and>
   (\<forall>c\<in>set (hotpVerify_probed hmacHash opts). counter opts \<le> c) \<and>
   (\<forall>m\<in>{counter opts..lastCounter opts}.
      (\<forall>c\<in>{counter opts..<m}. mismatch hmacHash opts c) \<and>
      hotpGenerate hmacHash (withCounter opts m) = Inr (HOTPVerifyOptions.code opts) \<longrightarrow>
      hotpVerify hmacHash opts = Inr \<lparr>valid = True, delta = Some (m - counter opts)\<rparr> \<and>
      hotpVerify_probed hmacHash opts = [counter opts..m]) \<and>
   (\<forall>r. hotpVerify hmacHash opts = Inr r \<and> valid r \<longrightarrow>
      (\<exists>d. delta r = Some d \<and> 0 \<le> d \<and> counter opts + d \<le> lastCounter opts \<and>
           hotpGenerate hmacHash (withCounter opts (counter opts + d))
             = Inr (HOTPVerifyOptions.code opts) \<and>
           (\<forall>j\<in>{0..<d}. mismatch hmacHash opts (counter opts + j))))"
proof (intro conjI ballI allI impI)
  from hotpVerify_probed_prefix[of opts hmacHash] obtain n where
    n: "n \<le> lastCounter opts" "hotpVerify_probed hmacHash opts = [counter opts..n]"
    by blast
  show "prefix (hotpVerify_probed hmacHash opts) [counter opts..lastCounter opts]"
    using n upto_prefix by simp
  show "counter opts \<le> c" if "c \<in> set (hotpVerify_probed hmacHash opts)" for c
    using that n by simp
next
  fix m
  assume m: "m \<in> {counter opts..lastCounter opts}"
    and h: "(\<forall>c\<in>{counter opts..<m}. mismatch hmacHash opts c) \<and>
      hotpGenerate hmacHash (withCounter opts m) = Inr (HOTPVerifyOptions.code opts)"
  have "hotpVerify_run hmacHash opts
          = ([counter opts..m], Inr \<lparr>valid = True, delta = Some (m - counter opts)\<rparr>)"
    using m h by (intro hotpVerify_run_first_match) auto
  then show "hotpVerify hmacHash opts = Inr \<lparr>valid = True, delta = Some (m - counter opts)\<rparr>"
    and "hotpVerify_probed hmacHash opts = [counter opts..m]"
    by (simp_all add: hotpVerify_def hotpVerify_probed_def)
next
  fix r
  assume r: "hotpVerify hmacHash opts = Inr r \<and> valid r"
  from hotpVerify_run_cases[of opts hmacHash] r obtain m where
    m: "counter opts \<le> m" "m \<le> lastCounter opts"
       "\<forall>c. counter opts \<le> c \<and> c < m \<longrightarrow> mismatch hmacHash opts c"
       "hotpGenerate hmacHash (withCounter opts m) = Inr (HOTPVerifyOptions.code opts)"
       "r = \<lparr>valid = True, delta = Some (m - counter opts)\<rparr>"
    by (auto simp: hotpVerify_def)
  show "\<exists>d. delta r = Some d \<and> 0 \<le> d \<and> counter opts + d \<le> lastCounter opts \<and>
           hotpGenerate hmacHash (withCounter opts (counter opts + d))
             = Inr (HOTPVerifyOptions.code opts) \<and>
           (\<forall>j\<in>{0..<d}. mismatch hmacHash opts (counter opts + j))"
    using m by (intro exI[of _ "m - counter opts"]) auto
qed

text \<open>
  C6 (amended). For counter and window integers that are, with their sum, safe integers:
  \<^verbatim>\<open>hotpVerify\<close> returns, and it calls \<^verbatim>\<open>hotpGenerate\<close> at the counters \<open>counter,
  counter + 1, ...\<close> in increasing order: the log of its calls is a prefix of the list of
  counters from \<open>counter\<close> to \<open>counter + window\<close>, so no call is made at a counter below
  \<open>counter\<close>. At the first counter \<open>m\<close> of the range whose code equals the submitted one
  (the codes generated before it differ from it) the search stops and returns
  \<^verbatim>\<open>{valid: true, delta: m - counter}\<close>. Conversely every valid result reports the smallest
  non-negative offset at which the generated code equals the submitted one. (Beyond the
  safe integers \<^verbatim>\<open>c += 1\<close> is rounded: from counter \<open>2 ^ 53 + 2\<close> with window 1 the search
  goes on to \<open>2 ^ 53 + 4\<close>, outside the range, and reports a match there with delta 2.)
\<close>

theorem hotpVerify_forward_first_match:
  "safeIntegers opts \<Longrightarrow>
   (\<exists>probed r. hotpVerify_probed_double hmacHash opts = Some probed \<and>
      hotpVerify_double hmacHash opts = Some r \<and>
      prefix probed [counter opts..lastCounter opts] \<and>
      (\<forall>c\<in>set probed. counter opts \<le> c)) \<and>
   (\<forall>m\<in>{counter opts..lastCounter opts}.
      (\<forall>c\<in>{counter opts..<m}. mismatch hmacHash opts c) \<and>
      hotpGenerate hmacHash (withCounter opts m) = Inr (HOTPVerifyOptions.code opts) \<longrightarrow>
      hotpVerify_double hmacHash opts
        = Some (Inr \<lparr>valid = True, delta = Some (m - counter opts)\<rparr>) \<and>
      hotpVerify_probed_double hmacHash opts = Some [counter opts..m]) \<and>
   (\<forall>r. hotpVerify_double hmacHash opts = Some (Inr r) \<and> valid r \<longrightarrow>
      (\<exists>d. delta r = Some d \<and> 0 \<le> d \<and> counter opts + d \<le> lastCounter opts \<and>
           hotpGenerate hmacHash (withCounter opts (counter opts + d))
             = Inr (HOTPVerifyOptions.code opts) \<and>
           (\<forall>j\<in>{0..<d}. mismatch hmacHash opts (counter opts + j))))"
proof -
  assume s: "safeIntegers opts"
  note ex = hotpVerify_double_exact[OF s, of hmacHash]
  note int = hotpVerify_exact_forward_first_match[of hmacHash opts]
  have a: "\<exists>probed r. Some (hotpVerify_probed hmacHash opts) = Some probed \<and>
      Some (hotpVerify hmacHash opts) = Some r \<and>
      prefix probed [counter opts..lastCounter opts] \<and>
      (\<forall>c\<in>set probed. counter opts \<le> c)"
    using conjunct1[OF int] conjunct1[OF conjunct2[OF int]] by blast
  have b: "\<forall>m\<in>{counter opts..lastCounter opts}.
      (\<forall>c\<in>{counter opts..<m}. mismatch hmacHash opts c) \<and>
      hotpGenerate hmacHash (withCounter opts m) = Inr (HOTPVerifyOptions.code opts) \<longrightarrow>
      Some (hotpVerify hmacHash opts)
        = Some (Inr \<lparr>valid = True, delta = Some (m - counter opts)\<rparr>) \<and>
      Some (hotpVerify_probed hmacHash opts) = Some [counter opts..m]"
    using conjunct1[OF conjunct2[OF conjunct2[OF int]]] by blast
  have c: "\<forall>r. Some (hotpVerify hmacHash opts) = Some (Inr r) \<and> valid r \<longrightarrow>
      (\<exists>d. delta r = Some d \<and> 0 \<le> d \<and> counter opts + d \<le> lastCounter opts \<and>
           hotpGenerate hmacHash (withCounter opts (counter opts + d))
             = Inr (HOTPVerifyOptions.code opts) \<and>
           (\<forall>j\<in>{0..<d}. mismatch hmacHash opts (counter opts + j)))"
    using conjunct2[OF conjunct2[OF conjunct2[OF int]]] by blast
  from a b c show ?thesis unfolding ex by (intro conjI)
qed

theorem hotpVerify_forward_first_match_witness:
  "safeIntegers (verifyOptions (rfc4226_options 0) ''359152'' (Some 3)) \<and>
   (2::int) \<in> {counter (verifyOptions (rfc4226_options 0) ''359152'' (Some 3))
                ..lastCounter (verifyOptions (rfc4226_options 0) ''359152'' (Some 3))} \<and>
   mismatch rfc4226_hmacHash (verifyOptions (rfc4226_options 0) ''359152'' (Some 3)) 0 \<and>
   mismatch rfc4226_hmacHash (verifyOptions (rfc4226_options 0) ''359152'' (Some 3)) 1 \<and>
   hotpGenerate rfc4226_hmacHash
       (withCounter (verifyOptions (rfc4226_options 0) ''359152'' (Some 3)) 2)
     = Inr (HOTPVerifyOptions.code (verifyOptions (rfc4226_options 0) ''359152'' (Some 3))) \<and>
   hotpVerify_double rfc4226_hmacHash (verifyOptions (rfc4226_options 0) ''359152'' (Some 3))
     = Some (Inr \<lparr>valid = True, delta = Some 2\<rparr>) \<and>
   hotpVerify_probed_double rfc4226_hmacHash
       (verifyOptions (rfc4226_options 0) ''359152'' (Some 3))
     = Some [0, 1, 2] \<and>
   prefix [0, 1, 2] [0, 1, 2, 3::int]"
proof -
  let ?o = "verifyOptions (rfc4226_options 0) ''359152'' (Some 3)"
  have c: "counter ?o = 0" and l: "lastCounter ?o = 3"
    by (simp_all add: verifyOptions_def rfc4226_options_def lastCounter_def orDefault_def)
  have s: "safeIntegers ?o"
    by (simp add: safeIntegers_def l c) (simp add: verifyOptions_def orDefault_def)
  have r: "{0..<2::int} = {0, 1}" by auto
  have h1: "(2::int) \<in> {counter ?o..lastCounter ?o}" by (simp add: c l)
  have m0: "mismatch rfc4226_hmacHash ?o 0" and m1: "mismatch rfc4226_hmacHash ?o 1"
    by (simp_all add: eval_defs)
  have h2: "\<forall>c\<in>{counter ?o..<2}. mismatch rfc4226_hmacHash ?o c"
    unfolding c r using m0 m1 by simp
  have h3: "hotpGenerate rfc4226_hmacHash (withCounter ?o 2) = Inr (HOTPVerifyOptions.code ?o)"
    by (simp add: eval_defs)
  have u: "[0..2::int] = [0, 1, 2]" "[0..3::int] = [0, 1, 2, 3]"
    by (simp_all add: upto_rec1)
  from hotpVerify_forward_first_match[OF s, of rfc4226_hmacHash] h1 h2 h3
  have "hotpVerify_double rfc4226_hmacHash ?o
          = Some (Inr \<lparr>valid = True, delta = Some (2 - counter ?o)\<rparr>)"
    and "hotpVerify_probed_double rfc4226_hmacHash ?o = Some [counter ?o..2]"
    by blast+
  then show ?thesis using s h1 m0 m1 h3 by (simp add: c l u)
qed

theorem hotpVerify_forward_first_match_counterexample:
  "lastCounter (verifyOptions (rfc4226_options 9007199254740994) ''349090'' (Some 1))
     = 9007199254740995 \<and>
   hotpVerify_probed_double rfc4226_hmacHash
       (verifyOptions (rfc4226_options 9007199254740994) ''349090'' (Some 1))
     = Some [9007199254740994, 9007199254740996] \<and>
   \<not> prefix [9007199254740994, 9007199254740996] [9007199254740994..9007199254740995] \<and>
   hotpVerify_double rfc4226_hmacHash
       (verifyOptions (rfc4226_options 9007199254740994) ''349090'' (Some 1))
     = Some (Inr \<lparr>valid = True, delta = Some 2\<rparr>)"
  unfolding double_run_defs by (simp add: eval_defs double_defs)



text \<open>
  C4. If \<^verbatim>\<open>totpGenerate\<close> produces a code for some secret, time and step (step 30 in
  particular), then \<^verbatim>\<open>totpVerify\<close> with the same options, that code, and window 0
  (given or defaulted) returns \<^verbatim>\<open>{valid: true, delta: 0}\<close>.
\<close>

theorem totpVerify_totpGenerate_roundtrip:
  "totpGenerate hmacHash now g = Inr otp \<Longrightarrow> w \<in> {None, Some 0} \<Longrightarrow>
   totpVerify hmacHash now (totpVerifyOptions g otp w) = Inr \<lparr>valid = True, delta = Some 0\<rparr>"
proof -
  assume gen: "totpGenerate hmacHash now g = Inr otp" and "w \<in> {None, Some 0}"
  then have w: "orDefault 0 w = 0" by (auto simp: orDefault_def)
  let ?o = "totpVerifyOptions g otp w"
  from gen obtain c0 where
    c0: "generateCounterFromTime now (time g) (orDefault 30 (step g)) = Inr c0" and
    hg: "hotpGenerate hmacHash
           \<lparr>secret = secret g, digits = digits g, encoding = encoding g,
            algorithm = algorithm g, counter = c0\<rparr> = Inr otp"
    by (auto simp: totpGenerate_unfold split: sum.splits)
  have req: "hotpRequest ?o c0
          = verifyOptions \<lparr>secret = secret g, digits = digits g, encoding = encoding g,
              algorithm = algorithm g, counter = c0\<rparr> otp (Some 0)"
    using w by (simp add: hotpRequest_def totpVerifyOptions_def verifyOptions_def)
  have "hotpVerify hmacHash (hotpRequest ?o c0) = Inr \<lparr>valid = True, delta = Some 0\<rparr>"
    unfolding req hotpVerify_def using hotpVerify_same_counter[OF hg, of "Some 0"]
    by (simp add: orDefault_def)
  moreover have "generateCounterFromTime now (time ?o) (orDefault 30 (step ?o)) = Inr c0"
    using c0 by (simp add: totpVerifyOptions_def)
  moreover have "orDefault 0 (TOTPVerifyOptions.window ?o) = 0"
    using w by (simp add: totpVerifyOptions_def)
  ultimately show ?thesis
    by (simp add: totpVerify_unfold)
qed

theorem totpVerify_totpGenerate_roundtrip_witness:
  "totpGenerate rfc4226_hmacHash 0 (rfc6238_options 59) = Inr ''287082'' \<and>
   None \<in> {None, Some (0::int)} \<and>
   totpVerify rfc4226_hmacHash 0 (totpVerifyOptions (rfc6238_options 59) ''287082'' None)
     = Inr \<lparr>valid = True, delta = Some 0\<rparr>"
proof -
  have h: "totpGenerate rfc4226_hmacHash 0 (rfc6238_options 59) = Inr ''287082''"
    by (simp add: eval_defs)
  have m: "None \<in> {None, Some (0::int)}" by simp
  show ?thesis
    using h m totpVerify_totpGenerate_roundtrip[OF h m] by simp
qed

text \<open>
  C7 (amended). In every result of \<^verbatim>\<open>hotpVerify\<close> (with the arithmetic of the source, and
  with exact arithmetic as \<^verbatim>\<open>totpVerify\<close> is stated over it) and of \<^verbatim>\<open>totpVerify\<close> the
  delta is present if and only if \<open>valid\<close> is true. In particular, when counter and window
  are integers that are, with their sum, safe integers, and at every counter from
  \<open>counter\<close> to \<open>counter + window\<close> the generated code differs from the submitted one,
  \<^verbatim>\<open>hotpVerify\<close> returns \<^verbatim>\<open>{valid: false}\<close> with no delta. (Beyond the safe integers the
  call need not return: \<open>hotpVerify_double_never_returns\<close>.)
\<close>

theorem delta_present_iff_valid:
  "(\<forall>r. hotpVerify_double hmacHash opts = Some (Inr r) \<longrightarrow> (delta r \<noteq> None) = valid r) \<and>
   (\<forall>r. hotpVerify hmacHash opts = Inr r \<longrightarrow> (delta r \<noteq> None) = valid r) \<and>
   (\<forall>r. totpVerify hmacHash now topts = Inr r \<longrightarrow> (delta r \<noteq> None) = valid r) \<and>
   (safeIntegers opts \<and> (\<forall>c\<in>{counter opts..lastCounter opts}. mismatch hmacHash opts c) \<longrightarrow>
      hotpVerify_double hmacHash opts = Some (Inr \<lparr>valid = False, delta = None\<rparr>))"
proof (intro conjI allI impI)
  show "(delta r \<noteq> None) = valid r" if "hotpVerify_double hmacHash opts = Some (Inr r)" for r
    using that by (rule hotpVerify_double_shape)
  show "(delta r \<noteq> None) = valid r" if "hotpVerify hmacHash opts = Inr r" for r
    using hotpVerify_result_shape[OF that] by auto
  show "(delta r \<noteq> None) = valid r" if "totpVerify hmacHash now topts = Inr r" for r
  proof -
    from that obtain c0 r' where
      r': "hotpVerify hmacHash (hotpRequest topts c0) = Inr r'" and
      r: "r = (if valid r' \<and> delta r' \<noteq> None
               then r'\<lparr>delta := map_option
                      (\<lambda>d. d - orDefault 0 (TOTPVerifyOptions.window topts)) (delta r')\<rparr>
               else r')"
      by (auto simp: totpVerify_unfold split: sum.splits)
    from hotpVerify_result_shape[OF r'] r show ?thesis by auto
  qed
  show "hotpVerify_double hmacHash opts = Some (Inr \<lparr>valid = False, delta = None\<rparr>)"
    if "safeIntegers opts \<and> (\<forall>c\<in>{counter opts..lastCounter opts}. mismatch hmacHash opts c)"
  proof -
    from that have "hotpVerify hmacHash opts = Inr \<lparr>valid = False, delta = None\<rparr>"
      using hotpVerify_run_no_match[of opts hmacHash] by (simp add: hotpVerify_def)
    with that show ?thesis by (simp add: hotpVerify_double_exact)
  qed
qed

theorem delta_present_iff_valid_witness:
  "safeIntegers (verifyOptions (rfc4226_options 0) ''000000'' (Some 2)) \<and>
   lastCounter (verifyOptions (rfc4226_options 0) ''000000'' (Some 2)) = 2 \<and>
   mismatch rfc4226_hmacHash (verifyOptions (rfc4226_options 0) ''000000'' (Some 2)) 0 \<and>
   mismatch rfc4226_hmacHash (verifyOptions (rfc4226_options 0) ''000000'' (Some 2)) 1 \<and>
   mismatch rfc4226_hmacHash (verifyOptions (rfc4226_options 0) ''000000'' (Some 2)) 2 \<and>
   hotpVerify_double rfc4226_hmacHash (verifyOptions (rfc4226_options 0) ''000000'' (Some 2))
     = Some (Inr \<lparr>valid = False, delta = None\<rparr>) \<and>
   totpVerify rfc4226_hmacHash 0 (totpVerifyOptions (rfc6238_options 59) ''287082'' (Some 1))
     = Inr \<lparr>valid = True, delta = Some 0\<rparr> \<and>
   (delta \<lparr>valid = False, delta = None\<rparr> \<noteq> None) = valid \<lparr>valid = False, delta = None\<rparr> \<and>
   (delta \<lparr>valid = True, delta = Some (0::int)\<rparr> \<noteq> None)
     = valid \<lparr>valid = True, delta = Some (0::int)\<rparr>"
proof -
  let ?o = "verifyOptions (rfc4226_options 0) ''000000'' (Some 2)"
  let ?t = "totpVerifyOptions (rfc6238_options 59) ''287082'' (Some 1)"
  have c: "counter ?o = 0" and l: "lastCounter ?o = 2"
    by (simp_all add: verifyOptions_def rfc4226_options_def lastCounter_def orDefault_def)
  have s: "safeIntegers ?o"
    by (simp add: safeIntegers_def l c) (simp add: verifyOptions_def orDefault_def)
  have r: "{0..2::int} = {0, 1, 2}" by auto
  have m: "mismatch rfc4226_hmacHash ?o 0" "mismatch rfc4226_hmacHash ?o 1"
    "mismatch rfc4226_hmacHash ?o 2"
    by (simp_all add: eval_defs)
  have h: "\<forall>c\<in>{counter ?o..lastCounter ?o}. mismatch rfc4226_hmacHash ?o c"
    unfolding c l r using m by simp
  have t: "totpVerify rfc4226_hmacHash 0 ?t = Inr \<lparr>valid = True, delta = Some 0\<rparr>"
    by (simp add: eval_defs)
  from delta_present_iff_valid[of rfc4226_hmacHash ?o 0 ?t] s h t
  have "hotpVerify_double rfc4226_hmacHash ?o = Some (Inr \<lparr>valid = False, delta = None\<rparr>)"
    and "(delta \<lparr>valid = True, delta = Some (0::int)\<rparr> \<noteq> None)
           = valid \<lparr>valid = True, delta = Some (0::int)\<rparr>"
    by blast+
  then show ?thesis using s m l t by simp
qed

theorem delta_present_iff_valid_counterexample:
  "counter (verifyOptions (rfc4226_options 9007199254740991) ''000000'' (Some 1))
     = 9007199254740991 \<and>
   lastCounter (verifyOptions (rfc4226_options 9007199254740991) ''000000'' (Some 1))
     = 9007199254740992 \<and>
   mismatch rfc4226_hmacHash
     (verifyOptions (rfc4226_options 9007199254740991) ''000000'' (Some 1)) 9007199254740991 \<and>
   mismatch rfc4226_hmacHash
     (verifyOptions (rfc4226_options 9007199254740991) ''000000'' (Some 1)) 9007199254740992 \<and>
   hotpVerify_double rfc4226_hmacHash
     (verifyOptions (rfc4226_options 9007199254740991) ''000000'' (Some 1)) = None \<and>
   hotpVerify_double rfc4226_hmacHash
     (verifyOptions (rfc4226_options 9007199254740991) ''000000'' (Some 1))
     \<noteq> Some (Inr \<lparr>valid = False, delta = None\<rparr>)"
  by (simp add: hotpVerify_double_never_returns) (simp add: eval_defs)

text \<open>The look-ahead with exact arithmetic.\<close>

lemma hotpVerify_exact_lookahead:
  assumes "hotpGenerate hmacHash (g\<lparr>counter := counter g + k\<rparr>) = Inr otp"
    and "0 \<le> k" and "0 \<le> w"
  shows "(hotpVerify hmacHash (verifyOptions g otp (Some w))
            = Inr \<lparr>valid = True, delta = Some k\<rparr>)
         = (k \<le> w \<and>
            (\<forall>j\<in>{0..<k}. mismatch hmacHash (verifyOptions g otp (Some w)) (counter g + j)))
       \<and> (hotpVerify hmacHash (verifyOptions g otp (Some w))
            = Inr \<lparr>valid = False, delta = None\<rparr>)
         = (w < k \<and>
            (\<forall>j\<in>{0..w}. mismatch hmacHash (verifyOptions g otp (Some w)) (counter g + j)))"
proof -
  let ?o = "verifyOptions g otp (Some w)"
  have c: "counter ?o = counter g" and l: "lastCounter ?o = counter g + w"
    and cd: "HOTPVerifyOptions.code ?o = otp"
    by (simp_all add: verifyOptions_def lastCounter_def orDefault_def)
  have "withCounter ?o (counter g + k) = g\<lparr>counter := counter g + k\<rparr>"
    by (simp add: withCounter_def verifyOptions_def)
  with assms(1) have match: "hotpGenerate hmacHash (withCounter ?o (counter g + k))
      = Inr (HOTPVerifyOptions.code ?o)"
    by (simp add: cd)
  have nm: "\<not> mismatch hmacHash ?o (counter g + k)"
    by (rule match_not_mismatch[OF match])
  have shift: "(\<forall>c. counter g \<le> c \<and> c < counter g + n \<longrightarrow> mismatch hmacHash ?o c)
      = (\<forall>j\<in>{0..<n}. mismatch hmacHash ?o (counter g + j))" for n
  proof
    assume a: "\<forall>c. counter g \<le> c \<and> c < counter g + n \<longrightarrow> mismatch hmacHash ?o c"
    show "\<forall>j\<in>{0..<n}. mismatch hmacHash ?o (counter g + j)"
      using a by simp
  next
    assume a: "\<forall>j\<in>{0..<n}. mismatch hmacHash ?o (counter g + j)"
    show "\<forall>c. counter g \<le> c \<and> c < counter g + n \<longrightarrow> mismatch hmacHash ?o c"
    proof (intro allI impI)
      fix c assume "counter g \<le> c \<and> c < counter g + n"
      then have "c - counter g \<in> {0..<n}" by simp
      with a have "mismatch hmacHash ?o (counter g + (c - counter g))" by blast
      then show "mismatch hmacHash ?o c" by simp
    qed
  qed
  have first: "(hotpVerify hmacHash ?o = Inr \<lparr>valid = True, delta = Some k\<rparr>)
         = (k \<le> w \<and> (\<forall>j\<in>{0..<k}. mismatch hmacHash ?o (counter g + j)))"
  proof
    assume v: "hotpVerify hmacHash ?o = Inr \<lparr>valid = True, delta = Some k\<rparr>"
    from hotpVerify_run_cases[of ?o hmacHash] v obtain m where
      m: "m \<le> lastCounter ?o" "m - counter ?o = k"
         "\<forall>c. counter ?o \<le> c \<and> c < m \<longrightarrow> mismatch hmacHash ?o c"
      by (auto simp: hotpVerify_def)
    from m(2) have "m = counter g + k" by (simp add: c)
    with m(1,3) show "k \<le> w \<and> (\<forall>j\<in>{0..<k}. mismatch hmacHash ?o (counter g + j))"
      by (simp add: l c shift)
  next
    assume a: "k \<le> w \<and> (\<forall>j\<in>{0..<k}. mismatch hmacHash ?o (counter g + j))"
    have "hotpVerify_run hmacHash ?o
            = ([counter ?o..counter g + k],
                Inr \<lparr>valid = True, delta = Some (counter g + k - counter ?o)\<rparr>)"
      using a assms(2) match by (intro hotpVerify_run_first_match) (simp_all add: c l shift)
    then show "hotpVerify hmacHash ?o = Inr \<lparr>valid = True, delta = Some k\<rparr>"
      by (simp add: hotpVerify_def c)
  qed
  have second: "(hotpVerify hmacHash ?o = Inr \<lparr>valid = False, delta = None\<rparr>)
         = (w < k \<and> (\<forall>j\<in>{0..w}. mismatch hmacHash ?o (counter g + j)))"
  proof
    assume v: "hotpVerify hmacHash ?o = Inr \<lparr>valid = False, delta = None\<rparr>"
    from hotpVerify_run_cases[of ?o hmacHash] v
    have all: "\<forall>c. counter ?o \<le> c \<and> c \<le> lastCounter ?o \<longrightarrow> mismatch hmacHash ?o c"
      by (auto simp: hotpVerify_def)
    have "w < k"
    proof (rule ccontr)
      assume "\<not> w < k"
      with assms(2) have "counter ?o \<le> counter g + k \<and> counter g + k \<le> lastCounter ?o"
        by (simp add: c l)
      with all nm show False by blast
    qed
    moreover have "\<forall>j\<in>{0..w}. mismatch hmacHash ?o (counter g + j)"
      using all by (simp add: c l)
    ultimately show "w < k \<and> (\<forall>j\<in>{0..w}. mismatch hmacHash ?o (counter g + j))" by simp
  next
    assume a: "w < k \<and> (\<forall>j\<in>{0..w}. mismatch hmacHash ?o (counter g + j))"
    then have "\<forall>j\<in>{0..<w + 1}. mismatch hmacHash ?o (counter g + j)" by simp
    then have "\<forall>c. counter ?o \<le> c \<and> c \<le> lastCounter ?o \<longrightarrow> mismatch hmacHash ?o c"
      using shift[of "w + 1"] by (simp add: c l)
    from hotpVerify_run_no_match[OF this]
    show "hotpVerify hmacHash ?o = Inr \<lparr>valid = False, delta = None\<rparr>"
      by (simp add: hotpVerify_def)
  qed
  from first second show ?thesis by blast
qed

text \<open>
  C5 (amended). Let counter and window \<open>w \<ge> 0\<close> be integers that are, with their sum, safe
  integers, and let the submitted code be the one generated at \<open>counter + k\<close>, \<open>k \<ge> 0\<close>.
  \<^verbatim>\<open>hotpVerify\<close> returns valid with delta \<open>k\<close> if and only if \<open>k \<le> w\<close> and the codes
  generated at the counters \<open>counter, ..., counter + k - 1\<close> all differ from the submitted
  one; it returns invalid if and only if \<open>k > w\<close> and the codes generated at the counters
  \<open>counter, ..., counter + w\<close> all differ from the submitted one. The first counter
  \<open>counter + j\<close> of the range that generates the submitted code is matched, and its delta
  \<open>j\<close> is reported.
\<close>

theorem hotpVerify_lookahead:
  assumes "hotpGenerate hmacHash (g\<lparr>counter := counter g + k\<rparr>) = Inr otp"
    and "0 \<le> k" and "0 \<le> w"
    and "safeIntegers (verifyOptions g otp (Some w))"
  shows "(hotpVerify_double hmacHash (verifyOptions g otp (Some w))
            = Some (Inr \<lparr>valid = True, delta = Some k\<rparr>))
         = (k \<le> w \<and>
            (\<forall>j\<in>{0..<k}. mismatch hmacHash (verifyOptions g otp (Some w)) (counter g + j)))
       \<and> (hotpVerify_double hmacHash (verifyOptions g otp (Some w))
            = Some (Inr \<lparr>valid = False, delta = None\<rparr>))
         = (w < k \<and>
            (\<forall>j\<in>{0..w}. mismatch hmacHash (verifyOptions g otp (Some w)) (counter g + j)))
       \<and> (\<forall>j\<in>{0..w}.
            (\<forall>i\<in>{0..<j}. mismatch hmacHash (verifyOptions g otp (Some w)) (counter g + i)) \<and>
            hotpGenerate hmacHash (withCounter (verifyOptions g otp (Some w)) (counter g + j))
              = Inr otp \<longrightarrow>
            hotpVerify_double hmacHash (verifyOptions g otp (Some w))
              = Some (Inr \<lparr>valid = True, delta = Some j\<rparr>))"
proof -
  let ?o = "verifyOptions g otp (Some w)"
  note ex = hotpVerify_double_exact(1)[OF assms(4), of hmacHash]
  note int = hotpVerify_exact_lookahead[OF assms(1-3)]
  have c: "counter ?o = counter g" and l: "lastCounter ?o = counter g + w"
    and cd: "HOTPVerifyOptions.code ?o = otp"
    by (simp_all add: verifyOptions_def lastCounter_def orDefault_def)
  have third: "hotpVerify hmacHash ?o = Inr \<lparr>valid = True, delta = Some j\<rparr>"
    if j: "j \<in> {0..w}"
      and mm: "\<forall>i\<in>{0..<j}. mismatch hmacHash ?o (counter g + i)"
      and gen: "hotpGenerate hmacHash (withCounter ?o (counter g + j)) = Inr otp" for j
  proof -
    have "\<forall>c'. counter ?o \<le> c' \<and> c' < counter g + j \<longrightarrow> mismatch hmacHash ?o c'"
    proof (intro allI impI)
      fix c' assume "counter ?o \<le> c' \<and> c' < counter g + j"
      then have "c' - counter g \<in> {0..<j}" by (simp add: c)
      with mm have "mismatch hmacHash ?o (counter g + (c' - counter g))" by blast
      then show "mismatch hmacHash ?o c'" by simp
    qed
    moreover have "counter ?o \<le> counter g + j" "counter g + j \<le> lastCounter ?o"
      using j by (simp_all add: c l)
    moreover have "hotpGenerate hmacHash (withCounter ?o (counter g + j))
        = Inr (HOTPVerifyOptions.code ?o)"
      using gen by (simp add: cd)
    ultimately have "hotpVerify_run hmacHash ?o
        = ([counter ?o..counter g + j],
           Inr \<lparr>valid = True, delta = Some (counter g + j - counter ?o)\<rparr>)"
      by (intro hotpVerify_run_first_match)
    then show ?thesis by (simp add: hotpVerify_def c)
  qed
  show ?thesis
    unfolding ex using conjunct1[OF int] conjunct2[OF int] third by simp
qed

theorem hotpVerify_lookahead_witness:
  "hotpGenerate rfc4226_hmacHash ((rfc4226_options 0)\<lparr>counter := counter (rfc4226_options 0) + 2\<rparr>)
     = Inr ''359152'' \<and> (0::int) \<le> 2 \<and> (0::int) \<le> 3 \<and> (2::int) \<le> 3 \<and>
   safeIntegers (verifyOptions (rfc4226_options 0) ''359152'' (Some 3)) \<and>
   mismatch rfc4226_hmacHash (verifyOptions (rfc4226_options 0) ''359152'' (Some 3))
      (counter (rfc4226_options 0) + 0) \<and>
   mismatch rfc4226_hmacHash (verifyOptions (rfc4226_options 0) ''359152'' (Some 3))
      (counter (rfc4226_options 0) + 1) \<and>
   hotpVerify_double rfc4226_hmacHash (verifyOptions (rfc4226_options 0) ''359152'' (Some 3))
     = Some (Inr \<lparr>valid = True, delta = Some 2\<rparr>)"
proof -
  have h: "hotpGenerate rfc4226_hmacHash
             ((rfc4226_options 0)\<lparr>counter := counter (rfc4226_options 0) + 2\<rparr>) = Inr ''359152''"
    by (simp add: eval_defs)
  have s: "safeIntegers (verifyOptions (rfc4226_options 0) ''359152'' (Some 3))"
    by (simp add: safeIntegers_def lastCounter_def verifyOptions_def rfc4226_options_def
        orDefault_def)
  have r: "{0..<2::int} = {0, 1}" by auto
  have m0: "mismatch rfc4226_hmacHash (verifyOptions (rfc4226_options 0) ''359152'' (Some 3))
      (counter (rfc4226_options 0) + 0)"
    and m1: "mismatch rfc4226_hmacHash (verifyOptions (rfc4226_options 0) ''359152'' (Some 3))
      (counter (rfc4226_options 0) + 1)"
    by (simp_all add: eval_defs)
  have mm: "\<forall>j\<in>{0..<2}. mismatch rfc4226_hmacHash
      (verifyOptions (rfc4226_options 0) ''359152'' (Some 3)) (counter (rfc4226_options 0) + j)"
    unfolding r using m0 m1 by simp
  from conjunct1[OF hotpVerify_lookahead[OF h _ _ s]] mm
  have "hotpVerify_double rfc4226_hmacHash (verifyOptions (rfc4226_options 0) ''359152'' (Some 3))
     = Some (Inr \<lparr>valid = True, delta = Some 2\<rparr>)"
    by simp
  with h s m0 m1 show ?thesis by simp
qed

theorem hotpVerify_lookahead_counterexample:
  "hotpGenerate rfc4226_hmacHash (rfc4226_options (103424 + 3)) = Inr ''746629'' \<and>
   safeIntegers (verifyOptions (rfc4226_options 103424) ''746629'' (Some 3)) \<and>
   hotpVerify_double rfc4226_hmacHash (verifyOptions (rfc4226_options 103424) ''746629'' (Some 3))
     = Some (Inr \<lparr>valid = True, delta = Some 0\<rparr>) \<and>
   hotpVerify_double rfc4226_hmacHash (verifyOptions (rfc4226_options 103424) ''746629'' (Some 3))
     \<noteq> Some (Inr \<lparr>valid = True, delta = Some 3\<rparr>) \<and>
   hotpVerify_double rfc4226_hmacHash (verifyOptions (rfc4226_options 103424) ''746629'' (Some 2))
     \<noteq> Some (Inr \<lparr>valid = False, delta = None\<rparr>)"
  unfolding double_run_defs by (simp add: eval_defs double_defs lastCounter_def)

text \<open>
  C1. The claim: the string returned by \<^verbatim>\<open>hotpGenerate\<close> has exactly \<open>digits\<close>
  characters, the truncated value modulo \<open>10 ^ digits\<close> left-padded with zeros. The code
  takes the last \<open>digits\<close> characters of the decimal representation and pads nothing:
  for the RFC 4226 key at counter 10281 the truncated value is 92555, the specification's
  formatter gives \<^verbatim>\<open>092555\<close>, and \<^verbatim>\<open>hotpGenerate\<close> with the default six digits returns the
  five characters \<^verbatim>\<open>92555\<close>. (In general, \<open>hotpGenerate_meets_spec_iff\<close>: for
  \<open>digits \<ge> 1\<close> the returned string is the specification's exactly when the truncated
  value has at least \<open>digits\<close> decimal digits.)
\<close>

theorem hotpGenerate_not_padded:
  "truncatedValue rfc4226_hmacHash (rfc4226_options 10281) = Inr 92555 \<and>
   hotpGenerate rfc4226_hmacHash (rfc4226_options 10281) = Inr ''92555'' \<and>
   formatCode_spec 92555 6 = ''092555''"
  by (simp add: eval_defs)

text \<open>
  C9 (amended). For \<open>digits \<ge> 1\<close>, the string returned by \<^verbatim>\<open>hotpGenerate\<close> is a suffix of
  the decimal representation of the truncated value, of length the minimum of \<open>digits\<close>
  and the number of decimal digits of that value: never longer than \<open>digits\<close>, and the
  whole representation, with no zero added, when that has at most \<open>digits\<close> characters.
  (That \<open>length (toString v)\<close> is the number of decimal digits of \<open>v\<close> is
  \<open>decimalValue_toString\<close>, \<open>toString_length_upper\<close> and \<open>toString_length_lower\<close>.)
\<close>

theorem hotpGenerate_length:
  assumes "truncatedValue hmacHash options = Inr v"
    and "1 \<le> orDefault 6 (digits options)"
  shows "\<exists>s. hotpGenerate hmacHash options = Inr s \<and>
             suffix s (toString v) \<and>
             int (length s) = min (orDefault 6 (digits options)) (int (length (toString v))) \<and>
             (int (length (toString v)) \<le> orDefault 6 (digits options) \<longrightarrow> s = toString v)"
proof -
  let ?d = "orDefault 6 (digits options)"
  let ?s = "drop (length (toString v) - nat ?d) (toString v)"
  have "hotpGenerate hmacHash options = Inr ?s"
    using assms by (simp add: hotpGenerate_truncatedValue substr_negative)
  moreover have "suffix ?s (toString v)" by (rule suffix_drop)
  moreover have "int (length ?s) = min ?d (int (length (toString v)))"
    using assms(2) by simp
  moreover have "int (length (toString v)) \<le> ?d \<longrightarrow> ?s = toString v"
    by simp
  ultimately show ?thesis by blast
qed

theorem hotpGenerate_length_witness:
  "truncatedValue rfc4226_hmacHash (rfc4226_options 10281) = Inr 92555 \<and>
   1 \<le> orDefault 6 (digits (rfc4226_options 10281)) \<and>
   hotpGenerate rfc4226_hmacHash (rfc4226_options 10281) = Inr ''92555'' \<and>
   toString 92555 = ''92555'' \<and>
   int (length ''92555'') = min (orDefault 6 (digits (rfc4226_options 10281))) 5"
proof -
  have h1: "truncatedValue rfc4226_hmacHash (rfc4226_options 10281) = Inr 92555"
    by (simp add: eval_defs)
  have h2: "1 \<le> orDefault 6 (digits (rfc4226_options 10281))"
    by (simp add: eval_defs)
  have t: "toString 92555 = ''92555''" by (simp add: toString.simps)
  from hotpGenerate_length[OF h1 h2] obtain s where
    s: "hotpGenerate rfc4226_hmacHash (rfc4226_options 10281) = Inr s"
       "int (length (toString 92555)) \<le> orDefault 6 (digits (rfc4226_options 10281))
          \<longrightarrow> s = toString 92555"
    by blast
  from s(2) have "s = ''92555''"
    by (simp add: t rfc4226_options_def orDefault_def)
  with s(1) h1 h2 t show ?thesis by (simp add: rfc4226_options_def orDefault_def)
qed

theorem hotpGenerate_length_counterexample:
  "truncatedValue rfc4226_hmacHash ((rfc4226_options 0)\<lparr>digits := Some 0\<rparr>) = Inr 1284755224 \<and>
   toString 1284755224 = ''1284755224'' \<and>
   hotpGenerate rfc4226_hmacHash ((rfc4226_options 0)\<lparr>digits := Some 0\<rparr>) = Inr ''1284755224'' \<and>
   int (length ''1284755224'')
     \<noteq> min (orDefault 6 (digits ((rfc4226_options 0)\<lparr>digits := Some 0\<rparr>)))
           (int (length (toString 1284755224)))"
  by (simp add: eval_defs)

text \<open>
  C8. For a call \<^verbatim>\<open>generateSecret\<close> with length 12 (given or defaulted) in which
  \<^verbatim>\<open>randomstring(12)\<close> returns a string of 12 characters: the \<^verbatim>\<open>ascii\<close> field has length
  12; decoding the \<^verbatim>\<open>hex\<close> field, the \<^verbatim>\<open>base32\<close> field after re-adding the padding to a
  multiple of eight characters, and the \<^verbatim>\<open>base64\<close> field each gives the bytes of the
  \<^verbatim>\<open>ascii\<close> field; and the \<^verbatim>\<open>base32\<close> field contains no \<^verbatim>\<open>=\<close>.
\<close>

theorem generateSecret_encodings_agree:
  assumes "length (randomstring 12) = 12" and "length' options \<in> {None, Some 12}"
  shows "length (generateSecret randomstring options ascii) = 12 \<and>
    hex_decode (generateSecret randomstring options hex)
      = Some (Buffer_from_ascii (generateSecret randomstring options ascii)) \<and>
    base32_decode (padTo 8 (generateSecret randomstring options base32))
      = Some (Buffer_from_ascii (generateSecret randomstring options ascii)) \<and>
    base64_decode (generateSecret randomstring options base64)
      = Some (Buffer_from_ascii (generateSecret randomstring options ascii)) \<and>
    CHR ''='' \<notin> set (generateSecret randomstring options base32)"
proof -
  from assms(2) have "orDefault 12 (length' options) = 12"
    by (auto simp: orDefault_def)
  with assms(1) show ?thesis
    by (simp add: generateSecret_fields hex_roundtrip base64_roundtrip base32_strip_repad
        base32_roundtrip)
qed

theorem generateSecret_encodings_agree_witness:
  "length ((\<lambda>n. ''abcdefghijkl'') (12::int)) = 12 \<and>
   length' \<lparr>length' = None\<rparr> \<in> {None, Some 12} \<and>
   generateSecret (\<lambda>n. ''abcdefghijkl'') \<lparr>length' = None\<rparr> ascii = ''abcdefghijkl'' \<and>
   generateSecret (\<lambda>n. ''abcdefghijkl'') \<lparr>length' = None\<rparr> hex = ''6162636465666768696a6b6c'' \<and>
   generateSecret (\<lambda>n. ''abcdefghijkl'') \<lparr>length' = None\<rparr> base32 = ''MFRGGZDFMZTWQ2LKNNWA'' \<and>
   generateSecret (\<lambda>n. ''abcdefghijkl'') \<lparr>length' = None\<rparr> base64 = ''YWJjZGVmZ2hpamts'' \<and>
   hex_decode ''6162636465666768696a6b6c'' = Some (Buffer_from_ascii ''abcdefghijkl'') \<and>
   base32_decode (padTo 8 ''MFRGGZDFMZTWQ2LKNNWA'') = Some (Buffer_from_ascii ''abcdefghijkl'') \<and>
   base64_decode ''YWJjZGVmZ2hpamts'' = Some (Buffer_from_ascii ''abcdefghijkl'')"
proof -
  let ?r = "generateSecret (\<lambda>n. ''abcdefghijkl'') \<lparr>length' = None\<rparr>"
  have h1: "length ((\<lambda>n. ''abcdefghijkl'') (12::int)) = 12" by simp
  have h2: "length' \<lparr>length' = None\<rparr> \<in> {None, Some 12}" by simp
  have a: "?r ascii = ''abcdefghijkl''"
    by (simp add: generateSecret_fields)
  have h: "?r hex = ''6162636465666768696a6b6c''"
    by (simp add: codec_defs)
  have b32: "?r base32 = ''MFRGGZDFMZTWQ2LKNNWA''"
    by (simp add: codec_defs)
  have b64: "?r base64 = ''YWJjZGVmZ2hpamts''"
    by (simp add: codec_defs)
  from generateSecret_encodings_agree[OF h1 h2]
  show ?thesis
    unfolding a h b32 b64 using a h b32 b64 by simp
qed

end
